theory Spec2Isabelle
  imports Complex_Main
begin

section \<open>The notification service of the class tracker\<close>

text \<open>
  A shallow embedding of \<^verbatim>\<open>services/notificationService.js\<close>: the Mongoose
  collections are lists of documents, every asynchronous library call that can
  reject (the store, the mail transporter, the child process, \<^verbatim>\<open>JSON.parse\<close>)
  takes its outcome from an explicit environment, and a \<^verbatim>\<open>try/catch\<close> is a case
  distinction on a sum whose left injection is the thrown error.
\<close>

subsection \<open>Documents and collections\<close>

type_synonym object_id = nat
type_synonym date = int

record user_doc =
  user_oid :: object_id
  email :: string

record class_doc =
  class_oid :: object_id
  class_user_id :: object_id
  course :: string
  title :: string
  number :: string
  instructors :: "string list"

text \<open>\<^verbatim>\<open>notificationSchema\<close>; \<open>notification_oid\<close> is the document's \<^verbatim>\<open>_id\<close>.\<close>

record notification_doc =
  notification_oid :: object_id
  user_id :: object_id
  class_id :: object_id
  class_number :: string
  last_status :: string
  last_checked :: date
  notification_sent :: "date option"
  notification_count :: nat
  is_active :: bool

record database =
  user_coll :: "user_doc list"
  class_coll :: "class_doc list"
  notification_coll :: "notification_doc list"

text \<open>A notification document after \<^verbatim>\<open>.populate('user_id').populate('class_id')\<close>:
  a reference whose target is missing is populated with \<^verbatim>\<open>null\<close>.\<close>

record populated =
  doc :: notification_doc
  pop_user :: "user_doc option"
  pop_class :: "class_doc option"

text \<open>The object the lookup script prints. \<^verbatim>\<open>error\<close> is \<^verbatim>\<open>undefined\<close> when the
  field is absent; \<^verbatim>\<open>seatStatus\<close> is taken to be a string, as the service stores it
  in a String path. The descriptive fields are only printed, never compared.\<close>

record class_data =
  error_field :: "string option"
  seatStatus :: string

datatype js_error = DbError | MailError | TypeError | ExecError | InvalidJSON

subsection \<open>Store operations\<close>

fun findOne :: "('a \<Rightarrow> bool) \<Rightarrow> 'a list \<Rightarrow> 'a option" where
  "findOne P [] = None"
| "findOne P (d # ds) = (if P d then Some d else findOne P ds)"

text \<open>\<^verbatim>\<open>findOneAndUpdate\<close> changes the first matching document only.\<close>

fun findOneAndUpdate :: "('a \<Rightarrow> bool) \<Rightarrow> ('a \<Rightarrow> 'a) \<Rightarrow> 'a list \<Rightarrow> 'a list" where
  "findOneAndUpdate P f [] = []"
| "findOneAndUpdate P f (d # ds) = (if P d then f d # ds else d # findOneAndUpdate P f ds)"

definition findByIdAndUpdate ::
  "object_id \<Rightarrow> (notification_doc \<Rightarrow> notification_doc) \<Rightarrow> notification_doc list \<Rightarrow> notification_doc list" where
  "findByIdAndUpdate i f ds = findOneAndUpdate (\<lambda>d. notification_oid d = i) f ds"

definition findNotificationById :: "object_id \<Rightarrow> notification_doc list \<Rightarrow> notification_doc option" where
  "findNotificationById i ds = findOne (\<lambda>d. notification_oid d = i) ds"

definition findClassById :: "object_id \<Rightarrow> class_doc list \<Rightarrow> class_doc option" where
  "findClassById i cs = findOne (\<lambda>c. class_oid c = i) cs"

definition findUserById :: "object_id \<Rightarrow> user_doc list \<Rightarrow> user_doc option" where
  "findUserById i us = findOne (\<lambda>u. user_oid u = i) us"

definition populate :: "database \<Rightarrow> notification_doc \<Rightarrow> populated" where
  "populate db d =
     \<lparr>doc = d,
      pop_user = findUserById (user_id d) (user_coll db),
      pop_class = findClassById (class_id d) (class_coll db)\<rparr>"

text \<open>A new \<^verbatim>\<open>_id\<close> differs from every \<^verbatim>\<open>_id\<close> of the collection.\<close>

definition fresh_oid :: "notification_doc list \<Rightarrow> object_id" where
  "fresh_oid ds = Suc (fold max (map notification_oid ds) 0)"

text \<open>\<^verbatim>\<open>Notification.create({user_id, class_id, class_number, last_status: 'Closed',
  is_active: true})\<close>: the other paths take the schema's defaults.\<close>

definition create :: "date \<Rightarrow> object_id \<Rightarrow> object_id \<Rightarrow> string \<Rightarrow> notification_doc list \<Rightarrow> notification_doc list" where
  "create now u c n ds =
     ds @ [\<lparr>notification_oid = fresh_oid ds, user_id = u, class_id = c, class_number = n,
            last_status = ''Closed'', last_checked = now, notification_sent = None,
            notification_count = 0, is_active = True\<rparr>]"

subsection \<open>sendNotificationEmail\<close>

record mail =
  mail_to :: string
  mail_subject :: string

text \<open>What happens outside the service: a call of \<^verbatim>\<open>sendNotificationEmail\<close> for a
  tracking record, and a message the transporter accepted.\<close>

datatype effect = SendAttempt object_id | Delivered mail

text \<open>How \<^verbatim>\<open>transporter.sendMail\<close> settles.\<close>

datatype mail_channel = Accepts | Rejects

definition sendMail :: "mail_channel \<Rightarrow> mail \<Rightarrow> effect list \<times> (js_error + unit)" where
  "sendMail t m = (case t of Accepts \<Rightarrow> ([Delivered m], Inr ()) | Rejects \<Rightarrow> ([], Inl MailError))"

text \<open>The body of the \<^verbatim>\<open>try\<close> block: reading \<^verbatim>\<open>user.email\<close> or
  \<^verbatim>\<open>classInfo.course\<close> of \<^verbatim>\<open>null\<close> throws a TypeError.\<close>

definition sendNotificationEmail_try ::
  "mail_channel \<Rightarrow> populated \<Rightarrow> class_data \<Rightarrow> effect list \<times> (js_error + unit)" where
  "sendNotificationEmail_try t n classStatus =
     (case pop_user n of None \<Rightarrow> ([], Inl TypeError)
      | Some user \<Rightarrow>
        (case pop_class n of None \<Rightarrow> ([], Inl TypeError)
         | Some classInfo \<Rightarrow>
             sendMail t \<lparr>mail_to = email user,
                         mail_subject = ''Class Seat Available: '' @ course classInfo @ '' - '' @ title classInfo\<rparr>))"

definition sendNotificationEmail ::
  "mail_channel option \<Rightarrow> populated \<Rightarrow> class_data \<Rightarrow> effect list \<times> (js_error + unit)" where
  "sendNotificationEmail emailTransporter n classStatus =
     (case emailTransporter of
        None \<Rightarrow> ([SendAttempt (notification_oid (doc n))], Inr ())
      | Some t \<Rightarrow>
         (case sendNotificationEmail_try t n classStatus of
            (effs, Inl e) \<Rightarrow> (SendAttempt (notification_oid (doc n)) # effs, Inr ())
          | (effs, Inr u) \<Rightarrow> (SendAttempt (notification_oid (doc n)) # effs, Inr ())))"

subsection \<open>processNotification\<close>

text \<open>The environment of one call: what \<^verbatim>\<open>getClassStatus\<close> resolves with, whether
  each of the two \<^verbatim>\<open>findByIdAndUpdate\<close> calls resolves, the two readings of
  \<^verbatim>\<open>new Date()\<close>, and the service's \<^verbatim>\<open>emailTransporter\<close>.\<close>

record pn_env =
  lookup :: "class_data option"
  status_write :: bool
  checked_at :: date
  emailTransporter :: "mail_channel option"
  sent_write :: bool
  sent_at :: date

record pn_result =
  classNumber :: string
  status :: string
  notificationSent :: bool

definition update_notifications ::
  "(notification_doc list \<Rightarrow> notification_doc list) \<Rightarrow> database \<Rightarrow> database" where
  "update_notifications f db = db\<lparr>notification_coll := f (notification_coll db)\<rparr>"

definition processNotification_try ::
  "pn_env \<Rightarrow> database \<Rightarrow> populated \<Rightarrow> database \<times> effect list \<times> (js_error + pn_result option)" where
  "processNotification_try env db n =
     (if pop_user n = None \<or> pop_class n = None then (db, [], Inr None)
      else case lookup env of
        None \<Rightarrow> (db, [], Inr None)
      | Some classStatus \<Rightarrow>
          if \<not> status_write env then (db, [], Inl DbError)
          else
            let db1 = update_notifications
                  (findByIdAndUpdate (notification_oid (doc n))
                     (\<lambda>d. d\<lparr>last_checked := checked_at env, last_status := seatStatus classStatus\<rparr>)) db
            in if last_status (doc n) = ''Closed'' \<and> seatStatus classStatus = ''Open'' then
                 (case sendNotificationEmail (emailTransporter env) n classStatus of
                    (effs, Inl e) \<Rightarrow> (db1, effs, Inl e)
                  | (effs, Inr u) \<Rightarrow>
                      if \<not> sent_write env then (db1, effs, Inl DbError)
                      else
                        (update_notifications
                           (findByIdAndUpdate (notification_oid (doc n))
                              (\<lambda>d. d\<lparr>notification_sent := Some (sent_at env),
                                     notification_count := notification_count (doc n) + 1\<rparr>)) db1,
                         effs,
                         Inr (Some \<lparr>classNumber = class_number (doc n),
                                    status = seatStatus classStatus, notificationSent = True\<rparr>)))
               else
                 (db1, [],
                  Inr (Some \<lparr>classNumber = class_number (doc n),
                             status = seatStatus classStatus, notificationSent = False\<rparr>)))"

text \<open>The \<^verbatim>\<open>catch\<close> of \<^verbatim>\<open>processNotification\<close> logs the error and returns \<^verbatim>\<open>null\<close>;
  what was written before the throw stays written.\<close>

definition processNotification ::
  "pn_env \<Rightarrow> database \<Rightarrow> populated \<Rightarrow> database \<times> effect list \<times> (js_error + pn_result option)" where
  "processNotification env db n =
     (case processNotification_try env db n of
        (db', effs, Inl e) \<Rightarrow> (db', effs, Inr None)
      | (db', effs, Inr r) \<Rightarrow> (db', effs, Inr r))"

subsection \<open>The script queue and executeClassScript\<close>

text \<open>The constructor's settings; none is assigned again.\<close>

definition batchSize :: nat where "batchSize = 5"
definition maxRetries :: nat where "maxRetries = 3"
definition maxConcurrentScripts :: int where "maxConcurrentScripts = 1"
definition minScriptInterval :: int where "minScriptInterval = 2000"

text \<open>What \<^verbatim>\<open>JSON.parse(stdout)\<close> does: it throws, or yields \<^verbatim>\<open>null\<close>, or an object.\<close>

datatype json_parse = SyntaxError | ParsedNull | ParsedObject class_data

text \<open>How \<^verbatim>\<open>execAsync\<close> settles: it rejects when the 45 s timeout kills the child
  or the child fails, and resolves with the child's standard output otherwise.\<close>

datatype exec_outcome = Timeout | ProcessFailure | Stdout json_parse

text \<open>A queue entry; \<open>resolve\<close> names the promise that \<^verbatim>\<open>getClassStatus\<close> returned.\<close>

record queue_entry =
  entry_classNumber :: string
  resolve :: nat
  retries :: nat
  timestamp :: date

text \<open>Where the admission loop of \<^verbatim>\<open>processScriptQueue\<close> is suspended: in the
  \<^verbatim>\<open>sleep(500)\<close> that ends an iteration, or in the spacing sleep between the
  admission test and the \<^verbatim>\<open>shift\<close>; or it has ended.\<close>

datatype loop_pc = Polling | Spacing | Exited

text \<open>The service object, and with it the world it acts on: the child processes
  whose \<^verbatim>\<open>execAsync\<close> is pending (each with its scratch directory), the pending
  retry timers (delay and entry to push), the directories under \<^verbatim>\<open>/tmp\<close>, and
  the promises resolved so far (\<open>None\<close> is \<^verbatim>\<open>null\<close>).\<close>

record service =
  isRunning :: bool
  scriptCallQueue :: "queue_entry list"
  currentScriptCount :: int
  lastScriptStartTime :: date
  cycleCount :: nat
  totalClassesChecked :: nat
  totalNotificationsSent :: nat
  loop :: loop_pc
  children :: "(queue_entry \<times> string) list"
  timers :: "(real \<times> queue_entry) list"
  tmp_dirs :: "string set"
  resolved :: "(nat \<times> class_data option) list"

text \<open>The service after \<^verbatim>\<open>start()\<close> has set \<^verbatim>\<open>isRunning\<close> and called
  \<^verbatim>\<open>processScriptQueue()\<close> once.\<close>

definition started :: service where
  "started =
     \<lparr>isRunning = True, scriptCallQueue = [], currentScriptCount = 0, lastScriptStartTime = 0,
      cycleCount = 0, totalClassesChecked = 0, totalNotificationsSent = 0,
      loop = Polling, children = [], timers = [], tmp_dirs = {}, resolved = []\<rparr>"

definition getClassStatus :: "string \<Rightarrow> nat \<Rightarrow> date \<Rightarrow> service \<Rightarrow> service" where
  "getClassStatus c r now s =
     s\<lparr>scriptCallQueue := scriptCallQueue s @
          [\<lparr>entry_classNumber = c, resolve = r, retries = 0, timestamp = now\<rparr>]\<rparr>"

text \<open>The environment of the synchronous prefix of \<^verbatim>\<open>executeClassScript\<close>: the
  \<^verbatim>\<open>uniqueId\<close> built from the clock and \<^verbatim>\<open>Math.random()\<close>, and whether
  \<^verbatim>\<open>mkdirSync\<close> succeeds.\<close>

record launch_env =
  uniqueId :: string
  mkdir_ok :: bool

definition tempDir :: "string \<Rightarrow> string" where
  "tempDir uid = ''/tmp/playwright_process_'' @ uid"

text \<open>Up to \<^verbatim>\<open>await this.execAsync(command, ...)\<close>: the directory is made unless it
  exists (a failure is caught and logged), and the child is started with
  \<^verbatim>\<open>TMPDIR\<close>, \<^verbatim>\<open>HOME\<close> and the XDG directories set to it.\<close>

definition executeClassScript_start :: "launch_env \<Rightarrow> queue_entry \<Rightarrow> service \<Rightarrow> service" where
  "executeClassScript_start lenv e s =
     s\<lparr>tmp_dirs :=
          (if tempDir (uniqueId lenv) \<in> tmp_dirs s then tmp_dirs s
           else if mkdir_ok lenv then insert (tempDir (uniqueId lenv)) (tmp_dirs s)
           else tmp_dirs s),
        children := children s @ [(e, tempDir (uniqueId lenv))]\<rparr>"

text \<open>The environment of the rest of the call: how \<^verbatim>\<open>execAsync\<close> settles, whether
  \<^verbatim>\<open>rm -rf\<close> succeeds, and the value of \<^verbatim>\<open>Math.random()\<close>, a double that is at
  least 0 and below 1, hence at most \<open>1 - 1 / 2 ^ 53\<close>.\<close>

record finish_env =
  outcome :: exec_outcome
  rm_ok :: bool
  random :: real

text \<open>JavaScript truthiness of the \<^verbatim>\<open>error\<close> field: \<^verbatim>\<open>undefined\<close> and the empty
  string are falsy.\<close>

definition truthy :: "string option \<Rightarrow> bool" where
  "truthy v = (case v of None \<Rightarrow> False | Some str \<Rightarrow> str \<noteq> [])"

text \<open>The \<^verbatim>\<open>try\<close> block after the \<^verbatim>\<open>await\<close>: the clean-up of the directory, then
  the parse; the result is the thrown error or the value passed to \<^verbatim>\<open>resolve\<close>.\<close>

definition executeClassScript_try ::
  "finish_env \<Rightarrow> string \<Rightarrow> service \<Rightarrow> service \<times> (js_error + class_data option)" where
  "executeClassScript_try fenv dir s =
     (case outcome fenv of
        Timeout \<Rightarrow> (s, Inl ExecError)
      | ProcessFailure \<Rightarrow> (s, Inl ExecError)
      | Stdout parsed \<Rightarrow>
          let s1 = (if dir \<in> tmp_dirs s \<and> rm_ok fenv then s\<lparr>tmp_dirs := tmp_dirs s - {dir}\<rparr> else s)
          in (case parsed of
                SyntaxError \<Rightarrow> (s1, Inl InvalidJSON)
              | ParsedNull \<Rightarrow> (s1, Inl TypeError)
              | ParsedObject classData \<Rightarrow>
                  if truthy (error_field classData) then (s1, Inr None)
                  else (s1, Inr (Some classData))))"

text \<open>JavaScript numbers are IEEE 754 doubles: the result of an arithmetic
  operation is the exact result rounded to the nearest double, a tie going to the
  even significand. \<open>double\<close> is that rounding: the doubles around \<open>x\<close> are the
  multiples of \<open>2 powi (binade x - 52)\<close>, subnormal below \<open>2 powi - 1022\<close>. Overflow
  to infinity is left out (the delays are below \<open>2 ^ 15\<close>).\<close>

definition round_even :: "real \<Rightarrow> int" where
  "round_even x =
     (if frac x = 1 / 2 then (if even \<lfloor>x\<rfloor> then \<lfloor>x\<rfloor> else \<lfloor>x\<rfloor> + 1) else round x)"

definition binade :: "real \<Rightarrow> int" where
  "binade x = max \<lfloor>log 2 \<bar>x\<bar>\<rfloor> (- 1022)"

definition double :: "real \<Rightarrow> real" where
  "double x =
     (if x = 0 then 0
      else of_int (round_even (x / 2 powi (binade x - 52))) * 2 powi (binade x - 52))"

text \<open>\<^verbatim>\<open>Math.pow(2, retries) * 3000 + Math.random() * 1000\<close>, each operation rounded
  (the power of two is exact).\<close>

definition retryDelay :: "nat \<Rightarrow> real \<Rightarrow> real" where
  "retryDelay n rnd = double (double (2 ^ n * 3000) + double (rnd * 1000))"

text \<open>The whole continuation: \<^verbatim>\<open>try\<close>, then \<^verbatim>\<open>catch\<close> (schedule the retry or
  resolve with \<^verbatim>\<open>null\<close>), then \<^verbatim>\<open>finally\<close>. The child has exited.\<close>

definition executeClassScript_finish ::
  "finish_env \<Rightarrow> queue_entry \<times> string \<Rightarrow> service \<Rightarrow> service" where
  "executeClassScript_finish fenv child s =
     (let e = fst child;
          (s1, r) = executeClassScript_try fenv (snd child) s;
          s2 = (case r of
                  Inr v \<Rightarrow> s1\<lparr>resolved := resolved s1 @ [(resolve e, v)]\<rparr>
                | Inl err \<Rightarrow>
                    if retries e < maxRetries then
                      s1\<lparr>timers := timers s1 @
                           [(retryDelay (retries e) (random fenv), e\<lparr>retries := retries e + 1\<rparr>)]\<rparr>
                    else s1\<lparr>resolved := resolved s1 @ [(resolve e, None)]\<rparr>)
      in s2\<lparr>currentScriptCount := currentScriptCount s2 - 1,
            children := remove1 child (children s2)\<rparr>)"

text \<open>The callback of the retry's \<^verbatim>\<open>setTimeout\<close> pushes the entry, stamped anew.\<close>

definition retry_timer :: "nat \<Rightarrow> date \<Rightarrow> service \<Rightarrow> service" where
  "retry_timer i now s =
     s\<lparr>scriptCallQueue := scriptCallQueue s @ [(snd (timers s ! i))\<lparr>timestamp := now\<rparr>],
        timers := take i (timers s) @ drop (Suc i) (timers s)\<rparr>"

text \<open>From the \<^verbatim>\<open>shift\<close> to the call of \<^verbatim>\<open>executeClassScript\<close>, then the
  \<^verbatim>\<open>sleep(500)\<close>. Destructuring the \<^verbatim>\<open>undefined\<close> that \<^verbatim>\<open>shift\<close> returns on an
  empty queue throws, which ends the loop.\<close>

definition dispatch :: "date \<Rightarrow> launch_env \<Rightarrow> service \<Rightarrow> service" where
  "dispatch now lenv s =
     (case scriptCallQueue s of
        [] \<Rightarrow> s\<lparr>loop := Exited\<rparr>
      | e # q \<Rightarrow>
          (executeClassScript_start lenv e
             (s\<lparr>scriptCallQueue := q,
                currentScriptCount := currentScriptCount s + 1,
                lastScriptStartTime := now\<rparr>))\<lparr>loop := Polling\<rparr>)"

text \<open>One run of the admission loop from the end of a sleep to the next sleep.\<close>

definition processScriptQueue :: "date \<Rightarrow> launch_env \<Rightarrow> service \<Rightarrow> service" where
  "processScriptQueue now lenv s =
     (case loop s of
        Exited \<Rightarrow> s
      | Spacing \<Rightarrow> dispatch now lenv s
      | Polling \<Rightarrow>
          if \<not> isRunning s then s\<lparr>loop := Exited\<rparr>
          else if scriptCallQueue s \<noteq> [] \<and> currentScriptCount s < maxConcurrentScripts then
            (if now - lastScriptStartTime s < minScriptInterval then s\<lparr>loop := Spacing\<rparr>
             else dispatch now lenv s)
          else s)"

text \<open>The event loop runs one of these at a time, each to its next \<^verbatim>\<open>await\<close>.\<close>

datatype event =
    Lookup string nat date
  | LoopWakes date launch_env
  | ChildExits nat finish_env
  | TimerFires nat date
  | Stop

fun step :: "service \<Rightarrow> event \<Rightarrow> service" where
  "step s (Lookup c r now) = getClassStatus c r now s"
| "step s (LoopWakes now lenv) = processScriptQueue now lenv s"
| "step s (ChildExits i fenv) =
     (if i < length (children s) then executeClassScript_finish fenv (children s ! i) s else s)"
| "step s (TimerFires i now) = (if i < length (timers s) then retry_timer i now s else s)"
| "step s Stop = s\<lparr>isRunning := False\<rparr>"

definition run :: "event list \<Rightarrow> service" where
  "run evs = foldl step started evs"

subsection \<open>monitorClasses\<close>

text \<open>The environment of one cycle: whether \<^verbatim>\<open>countDocuments\<close> and the \<^verbatim>\<open>find\<close> of
  each batch resolve, what \<^verbatim>\<open>isRunning\<close> reads at the head of each iteration
  (\<^verbatim>\<open>stop()\<close> may run meanwhile), and the environment of the
  \<^verbatim>\<open>processNotification\<close> call of each document.\<close>

record cycle_env =
  count_ok :: bool
  find_ok :: "nat \<Rightarrow> bool"
  still_running :: "nat \<Rightarrow> bool"
  pn_envs :: "object_id \<Rightarrow> pn_env"

text \<open>What one iteration of the \<^verbatim>\<open>for\<close> loop does, as a list of events in the order
  of time: a lookup requested by a call of \<^verbatim>\<open>processNotification\<close> (its push on the
  queue in \<^verbatim>\<open>getClassStatus\<close>), a call settled for a document, with the effects it
  had by then and its outcome, and a delay slept.\<close>

datatype cycle_event =
    Requested string
  | Settled object_id "effect list" "js_error + pn_result option"
  | Slept int

text \<open>One iteration: the documents its \<^verbatim>\<open>find\<close> returned and its events.\<close>

record batch_report =
  found :: "object_id list"
  events :: "cycle_event list"

text \<open>\<^verbatim>\<open>notifications.map(async ...)\<close> starts every call, and each runs up to its
  first \<^verbatim>\<open>await\<close>: an invalid record returns \<^verbatim>\<open>null\<close> there, any other requests its
  lookup.\<close>

definition dispatch_phase :: "populated list \<Rightarrow> cycle_event list" where
  "dispatch_phase ns =
     map (\<lambda>n. Requested (class_number (doc n)))
       (filter (\<lambda>n. \<not> (pop_user n = None \<or> pop_class n = None)) ns)"

text \<open>\<^verbatim>\<open>await Promise.allSettled(batchPromises)\<close>: the calls go on as their lookups
  resolve and settle one by one, here in the order of the batch. A call that
  rejected would be one rejected outcome among the others.\<close>

fun settle_phase ::
  "(object_id \<Rightarrow> pn_env) \<Rightarrow> database \<Rightarrow> populated list \<Rightarrow> database \<times> cycle_event list" where
  "settle_phase envs db [] = (db, [])"
| "settle_phase envs db (n # ns) =
     (case processNotification (envs (notification_oid (doc n))) db n of
        (db1, effs, r) \<Rightarrow>
          (case settle_phase envs db1 ns of
             (db2, evs) \<Rightarrow> (db2, Settled (notification_oid (doc n)) effs r # evs)))"

text \<open>\<^verbatim>\<open>Notification.find({is_active: true}).skip(batch * batchSize).limit(batchSize)\<close>,
  populated.\<close>

definition find_batch :: "database \<Rightarrow> nat \<Rightarrow> populated list" where
  "find_batch db batch =
     map (populate db)
       (take batchSize (drop (batch * batchSize) (filter is_active (notification_coll db))))"

text \<open>The \<^verbatim>\<open>for\<close> loop over the batch numbers: \<^verbatim>\<open>break\<close> when the service has been
  stopped, the \<^verbatim>\<open>find\<close>, the calls started, the calls awaited, \<^verbatim>\<open>sleep(1000)\<close>.\<close>

fun run_batches ::
  "cycle_env \<Rightarrow> nat list \<Rightarrow> database \<Rightarrow> database \<times> batch_report list \<times> js_error option" where
  "run_batches env [] db = (db, [], None)"
| "run_batches env (batch # rest) db =
     (if \<not> still_running env batch then (db, [], None)
      else if \<not> find_ok env batch then (db, [], Some DbError)
      else
        let notifications = find_batch db batch
        in (case settle_phase (pn_envs env) db notifications of
              (db1, evs) \<Rightarrow>
                (case run_batches env rest db1 of
                   (db2, reports, err) \<Rightarrow>
                     (db2,
                      \<lparr>found = map (\<lambda>n. notification_oid (doc n)) notifications,
                       events = dispatch_phase notifications @ evs @ [Slept 1000]\<rparr> # reports,
                      err))))"

text \<open>The outcomes the callbacks of \<^verbatim>\<open>notifications.map\<close> saw.\<close>

fun outcomes :: "cycle_event list \<Rightarrow> (js_error + pn_result option) list" where
  "outcomes [] = []"
| "outcomes (Settled i effs r # evs) = r # outcomes evs"
| "outcomes (ev # evs) = outcomes evs"

definition checked :: "(js_error + pn_result option) \<Rightarrow> bool" where
  "checked r = (case r of Inr (Some res) \<Rightarrow> True | _ \<Rightarrow> False)"

definition sent :: "(js_error + pn_result option) \<Rightarrow> bool" where
  "sent r = (case r of Inr (Some res) \<Rightarrow> notificationSent res | _ \<Rightarrow> False)"

definition totalBatches :: "nat \<Rightarrow> nat" where
  "totalBatches totalNotifications = nat \<lceil>real totalNotifications / real batchSize\<rceil>"

text \<open>One cycle. An error thrown inside the \<^verbatim>\<open>try\<close> is logged; the lifetime
  counters are added to only when the loop ran to its end.\<close>

definition monitorClasses ::
  "cycle_env \<Rightarrow> service \<Rightarrow> database \<Rightarrow> service \<times> database \<times> batch_report list" where
  "monitorClasses env s db =
     (if \<not> isRunning s then (s, db, [])
      else
        let s1 = s\<lparr>cycleCount := cycleCount s + 1\<rparr>
        in if \<not> count_ok env then (s1, db, [])
           else
             let totalNotifications = length (filter is_active (notification_coll db))
             in if totalNotifications > 0 then
                  (case run_batches env [0 ..< totalBatches totalNotifications] db of
                     (db', reports, Some e) \<Rightarrow> (s1, db', reports)
                   | (db', reports, None) \<Rightarrow>
                       (s1\<lparr>totalClassesChecked := totalClassesChecked s1 +
                              length (filter checked (outcomes (concat (map events reports)))),
                            totalNotificationsSent := totalNotificationsSent s1 +
                              length (filter sent (outcomes (concat (map events reports))))\<rparr>,
                        db', reports))
                else (s1, db, []))"

subsection \<open>Tracking creation, removal and the startup backfill\<close>

text \<open>The environment of a handler: whether the models were imported, whether each
  store call resolves, and the clock for the schema's default of \<^verbatim>\<open>last_checked\<close>.\<close>

record handler_env =
  models_available :: bool
  read_ok :: bool
  write_ok :: bool
  created_at :: date

definition handleClassAdded_try ::
  "handler_env \<Rightarrow> database \<Rightarrow> object_id \<Rightarrow> object_id \<Rightarrow> database \<times> (js_error + unit)" where
  "handleClassAdded_try env db userId classId =
     (if \<not> models_available env then (db, Inr ())
      else if \<not> read_ok env then (db, Inl DbError)
      else case findClassById classId (class_coll db) of
        None \<Rightarrow> (db, Inr ())
      | Some classItem \<Rightarrow>
          if \<not> write_ok env then (db, Inl DbError)
          else (update_notifications (create (created_at env) userId classId (number classItem)) db,
                Inr ()))"

definition handleClassAdded ::
  "handler_env \<Rightarrow> database \<Rightarrow> object_id \<Rightarrow> object_id \<Rightarrow> database \<times> (js_error + unit)" where
  "handleClassAdded env db userId classId =
     (case handleClassAdded_try env db userId classId of
        (db', Inl e) \<Rightarrow> (db', Inr ())
      | (db', Inr u) \<Rightarrow> (db', Inr u))"

definition handleClassRemoved_try ::
  "handler_env \<Rightarrow> database \<Rightarrow> object_id \<Rightarrow> object_id \<Rightarrow> database \<times> (js_error + unit)" where
  "handleClassRemoved_try env db userId classId =
     (if \<not> models_available env then (db, Inr ())
      else if \<not> write_ok env then (db, Inl DbError)
      else (update_notifications
              (findOneAndUpdate (\<lambda>d. user_id d = userId \<and> class_id d = classId)
                 (\<lambda>d. d\<lparr>is_active := False\<rparr>)) db,
            Inr ()))"

definition handleClassRemoved ::
  "handler_env \<Rightarrow> database \<Rightarrow> object_id \<Rightarrow> object_id \<Rightarrow> database \<times> (js_error + unit)" where
  "handleClassRemoved env db userId classId =
     (case handleClassRemoved_try env db userId classId of
        (db', Inl e) \<Rightarrow> (db', Inr ())
      | (db', Inr u) \<Rightarrow> (db', Inr u))"

text \<open>The loop of \<^verbatim>\<open>initializeNotificationTracking\<close> over the populated classes;
  \<open>ok\<close> tells for each class whether its store calls resolve. A rejection leaves
  the loop.\<close>

fun backfill ::
  "(object_id \<Rightarrow> bool) \<Rightarrow> date \<Rightarrow> user_doc list \<Rightarrow> class_doc list \<Rightarrow> notification_doc list \<Rightarrow>
     notification_doc list \<times> (js_error + unit)" where
  "backfill ok now us [] ds = (ds, Inr ())"
| "backfill ok now us (classItem # rest) ds =
     (case findUserById (class_user_id classItem) us of
        None \<Rightarrow> backfill ok now us rest ds
      | Some user \<Rightarrow>
          if \<not> ok (class_oid classItem) then (ds, Inl DbError)
          else
            (case findOne (\<lambda>d. user_id d = user_oid user \<and> class_id d = class_oid classItem) ds of
               None \<Rightarrow> backfill ok now us rest
                         (create now (user_oid user) (class_oid classItem) (number classItem) ds)
             | Some existingNotification \<Rightarrow> backfill ok now us rest ds))"

definition initializeNotificationTracking ::
  "bool \<Rightarrow> (object_id \<Rightarrow> bool) \<Rightarrow> date \<Rightarrow> database \<Rightarrow> database \<times> (js_error + unit)" where
  "initializeNotificationTracking classes_ok ok now db =
     (if \<not> classes_ok then (db, Inr ())
      else case backfill ok now (user_coll db) (class_coll db) (notification_coll db) of
             (ds, r) \<Rightarrow> (db\<lparr>notification_coll := ds\<rparr>, Inr ()))"

subsection \<open>getNotificationStats\<close>

record stats =
  totalActive :: nat
  totalSent :: nat
  lastChecked :: "date option"

text \<open>The \<^verbatim>\<open>$match\<close>/\<^verbatim>\<open>$group\<close> pipeline; with no active document the
  aggregate is empty and the default is returned.\<close>

definition getNotificationStats :: "database \<Rightarrow> stats" where
  "getNotificationStats db =
     (let active = filter is_active (notification_coll db)
      in if active = [] then \<lparr>totalActive = 0, totalSent = 0, lastChecked = None\<rparr>
         else \<lparr>totalActive = length active,
               totalSent = sum_list (map notification_count active),
               lastChecked = Some (fold max (map last_checked active) (last_checked (hd active)))\<rparr>)"

subsection \<open>Properties stated about the model\<close>

text \<open>The invariant of the data model: no two active tracking records for one
  pair of user and class.\<close>

definition one_active_per_pair :: "notification_doc list \<Rightarrow> bool" where
  "one_active_per_pair ds = distinct (map (\<lambda>d. (user_id d, class_id d)) (filter is_active ds))"

text \<open>A tracking record whose user and class exist.\<close>

definition tracked :: "database \<Rightarrow> notification_doc \<Rightarrow> bool" where
  "tracked db d \<longleftrightarrow>
     findUserById (user_id d) (user_coll db) \<noteq> None \<and>
     findClassById (class_id d) (class_coll db) \<noteq> None"

text \<open>What the call for the record \<open>d\<close> does when it is the only one made, on the
  store as the cycle found it.\<close>

definition alone ::
  "cycle_env \<Rightarrow> database \<Rightarrow> notification_doc \<Rightarrow> database \<times> effect list \<times> (js_error + pn_result option)" where
  "alone env db d = processNotification (pn_envs env (notification_oid d)) db (populate db d)"

text \<open>What a call writes into the document it updates (a lemma below shows that
  this is what \<open>processNotification\<close> does to the store).\<close>

definition written :: "pn_env \<Rightarrow> populated \<Rightarrow> notification_doc \<Rightarrow> notification_doc" where
  "written env n x =
     (if pop_user n = None \<or> pop_class n = None then x
      else case lookup env of
        None \<Rightarrow> x
      | Some classStatus \<Rightarrow>
          if \<not> status_write env then x
          else if last_status (doc n) = ''Closed'' \<and> seatStatus classStatus = ''Open'' \<and> sent_write env
          then x\<lparr>last_checked := checked_at env, last_status := seatStatus classStatus,
                 notification_sent := Some (sent_at env),
                 notification_count := notification_count (doc n) + 1\<rparr>
          else x\<lparr>last_checked := checked_at env, last_status := seatStatus classStatus\<rparr>)"

text \<open>The Closed-to-Open edges of a sequence of statuses.\<close>

fun edges :: "string list \<Rightarrow> nat" where
  "edges (a # b # rest) = (if a = ''Closed'' \<and> b = ''Open'' then 1 else 0) + edges (b # rest)"
| "edges _ = 0"

definition attempts :: "effect list \<Rightarrow> nat" where
  "attempts effs = length (filter (\<lambda>e. case e of SendAttempt i \<Rightarrow> True | _ \<Rightarrow> False) effs)"

definition deliveries :: "effect list \<Rightarrow> nat" where
  "deliveries effs = length (filter (\<lambda>e. case e of Delivered m \<Rightarrow> True | _ \<Rightarrow> False) effs)"

text \<open>The successive cycles as one tracking record sees them: each reloads the
  record and processes it in the environment of that cycle.\<close>

fun observe :: "database \<Rightarrow> object_id \<Rightarrow> pn_env list \<Rightarrow> database \<times> effect list" where
  "observe db i [] = (db, [])"
| "observe db i (env # envs) =
     (case findNotificationById i (notification_coll db) of
        None \<Rightarrow> observe db i envs
      | Some d \<Rightarrow>
          (case processNotification env db (populate db d) of
             (db1, effs, r) \<Rightarrow>
               (case observe db1 i envs of (db2, effs') \<Rightarrow> (db2, effs @ effs'))))"

text \<open>The observations that reach the comparison: the lookup resolved with a
  status and the store took the write of it.\<close>

fun observed :: "pn_env list \<Rightarrow> string list" where
  "observed [] = []"
| "observed (env # envs) =
     (case lookup env of
        None \<Rightarrow> observed envs
      | Some classStatus \<Rightarrow>
          if status_write env then seatStatus classStatus # observed envs else observed envs)"

subsection \<open>A small store\<close>

text \<open>One user tracking class 12345, last seen closed.\<close>

definition example_record :: notification_doc where
  "example_record =
     \<lparr>notification_oid = 3, user_id = 1, class_id = 2, class_number = ''12345'',
      last_status = ''Closed'', last_checked = 0, notification_sent = None,
      notification_count = 0, is_active = True\<rparr>"

definition example_db :: database where
  "example_db =
     \<lparr>user_coll = [\<lparr>user_oid = 1, email = ''student@asu.edu''\<rparr>],
      class_coll = [\<lparr>class_oid = 2, class_user_id = 1, course = ''CSE 110'',
                     title = ''Principles of Programming'', number = ''12345'',
                     instructors = [''Staff'']\<rparr>],
      notification_coll = [example_record]\<rparr>"

text \<open>A cycle at time \<open>t\<close> in which the lookup reports the status \<open>st\<close>, the store
  takes every write and the transporter behaves as \<open>tr\<close>.\<close>

definition example_env :: "string \<Rightarrow> date \<Rightarrow> mail_channel option \<Rightarrow> pn_env" where
  "example_env st t tr =
     \<lparr>lookup = Some \<lparr>error_field = None, seatStatus = st\<rparr>, status_write = True,
      checked_at = t, emailTransporter = tr, sent_write = True, sent_at = t\<rparr>"

subsection \<open>Invariants of the queue\<close>

text \<open>The tracked count is the number of children; there is at most one; and
  while the loop is in its spacing sleep an entry waits and no child runs.\<close>

definition queue_inv :: "service \<Rightarrow> bool" where
  "queue_inv s \<longleftrightarrow>
     currentScriptCount s = int (length (children s)) \<and> length (children s) \<le> 1 \<and>
     (loop s = Spacing \<longrightarrow> scriptCallQueue s \<noteq> [] \<and> children s = [])"

definition retries_bounded :: "service \<Rightarrow> bool" where
  "retries_bounded s \<longleftrightarrow>
     (\<forall>e \<in> set (scriptCallQueue s). retries e \<le> maxRetries) \<and>
     (\<forall>c \<in> set (children s). retries (fst c) \<le> maxRetries) \<and>
     (\<forall>t \<in> set (timers s). retries (snd t) \<le> maxRetries)"

subsection \<open>A small run\<close>

definition example_launch :: launch_env where
  "example_launch = \<lparr>uniqueId = ''1700000000000_k3j9x2q1z'', mkdir_ok = True\<rparr>"

definition example_finish :: "exec_outcome \<Rightarrow> finish_env" where
  "example_finish out = \<lparr>outcome = out, rm_ok = True, random = 1 / 2\<rparr>"

text \<open>Two lookups requested in one burst.\<close>

definition example_burst :: "event list" where
  "example_burst = [Lookup ''12345'' 0 0, Lookup ''67890'' 1 0]"

text \<open>An entry for class 12345 that has been requeued \<open>n\<close> times, and the scratch
  directory of its child.\<close>

definition example_entry :: "nat \<Rightarrow> queue_entry" where
  "example_entry n = \<lparr>entry_classNumber = ''12345'', resolve = 0, retries = n, timestamp = 0\<rparr>"

definition example_dir :: string where
  "example_dir = tempDir (uniqueId example_launch)"

text \<open>The output \<^verbatim>\<open>{"error": "", "seatStatus": "Open"}\<close>.\<close>

definition empty_error :: class_data where
  "empty_error = \<lparr>error_field = Some [], seatStatus = ''Open''\<rparr>"

text \<open>The output \<^verbatim>\<open>{"error": "not found"}\<close> of the lookup of class 99999; the
  status is never read.\<close>

definition not_found :: class_data where
  "not_found = \<lparr>error_field = Some ''not found'', seatStatus = []\<rparr>"

text \<open>What no operation on an existing tracking record changes.\<close>

definition frame :: "notification_doc \<Rightarrow> object_id \<times> bool \<times> object_id \<times> object_id \<times> string" where
  "frame d = (notification_oid d, is_active d, user_id d, class_id d, class_number d)"

text \<open>Twelve classes of one user, all tracked; and a cycle in which the store
  answers, the service keeps running, and the lookup of the fourth record fails
  while the others report Closed.\<close>

definition example_doc :: "nat \<Rightarrow> notification_doc" where
  "example_doc k = example_record\<lparr>notification_oid := 100 + k, class_id := k\<rparr>"

definition example_db12 :: database where
  "example_db12 =
     \<lparr>user_coll = [\<lparr>user_oid = 1, email = ''student@asu.edu''\<rparr>],
      class_coll = map (\<lambda>k. \<lparr>class_oid = k, class_user_id = 1, course = ''CSE 110'',
                                title = ''Principles of Programming'', number = ''12345'',
                                instructors = [''Staff'']\<rparr>) [0 ..< 12],
      notification_coll = map example_doc [0 ..< 12]\<rparr>"

text \<open>What a call of the example cycle reports for a class found closed.\<close>

definition still_closed :: pn_result where
  "still_closed = \<lparr>classNumber = ''12345'', status = ''Closed'', notificationSent = False\<rparr>"

definition example_cycle :: cycle_env where
  "example_cycle =
     \<lparr>count_ok = True, find_ok = (\<lambda>b. True), still_running = (\<lambda>b. True),
      pn_envs = (\<lambda>i. if i = 103 then (example_env ''Closed'' 7 None)\<lparr>lookup := None\<rparr>
                      else example_env ''Closed'' 7 None)\<rparr>"

text \<open>One lookup whose child times out four times: each time it exits the retry
  timer fires and the loop starts the entry again.\<close>

definition example_retries :: "event list" where
  "example_retries =
     [Lookup ''12345'' 0 0,
      LoopWakes 5000 example_launch, ChildExits 0 (example_finish Timeout), TimerFires 0 9000,
      LoopWakes 9500 example_launch, ChildExits 0 (example_finish Timeout), TimerFires 0 16000,
      LoopWakes 16500 example_launch, ChildExits 0 (example_finish Timeout), TimerFires 0 29000,
      LoopWakes 29500 example_launch, ChildExits 0 (example_finish Timeout)]"

section \<open>Store lemmas\<close>

lemma findOne_update:
  "(\<And>d. P d \<Longrightarrow> P (f d)) \<Longrightarrow> findOne P (findOneAndUpdate P f ds) = map_option f (findOne P ds)"
  by (induction ds) auto

lemma find_after_update:
  "findNotificationById i (findByIdAndUpdate i f ds) =
     map_option f (findNotificationById i ds)" if "\<And>d. notification_oid (f d) = notification_oid d"
  using that unfolding findNotificationById_def findByIdAndUpdate_def
  by (intro findOne_update) simp

lemma findOne_Some: "findOne P ds = Some d \<Longrightarrow> P d"
  by (induction ds) (auto split: if_splits)

lemma find_oid: "findNotificationById i ds = Some d \<Longrightarrow> notification_oid d = i"
  unfolding findNotificationById_def by (drule findOne_Some) simp

lemma sendNotificationEmail_returns: "snd (sendNotificationEmail t n cs) = Inr ()"
  by (auto simp: sendNotificationEmail_def split: option.splits prod.splits sum.splits)

lemma sendNotificationEmail_attempts: "attempts (fst (sendNotificationEmail t n cs)) = 1"
  by (auto simp: sendNotificationEmail_def sendNotificationEmail_try_def sendMail_def attempts_def split: option.splits prod.splits sum.splits mail_channel.splits)

lemma sendNotificationEmail_cases:
  obtains effs where "sendNotificationEmail t n cs = (effs, Inr ())" "attempts effs = 1"
  using sendNotificationEmail_returns [of t n cs] sendNotificationEmail_attempts [of t n cs]
  by (cases "sendNotificationEmail t n cs") auto

lemma attempts_Nil: "attempts [] = 0"
  by (simp add: attempts_def)

lemma attempts_append: "attempts (xs @ ys) = attempts xs + attempts ys"
  by (simp add: attempts_def)

section \<open>processNotification\<close>

lemma processNotification_skip:
  assumes "lookup env = None \<or> \<not> status_write env"
  shows "processNotification env db n = (db, [], Inr None)"
  using assms
  by (auto simp: processNotification_def processNotification_try_def split: option.splits)

lemma processNotification_colls:
  "user_coll (fst (processNotification env db n)) = user_coll db \<and>
   class_coll (fst (processNotification env db n)) = class_coll db"
  by (auto simp: processNotification_def processNotification_try_def update_notifications_def Let_def
      split: option.splits prod.splits sum.splits)

lemma processNotification_attempts:
  assumes "pop_user n \<noteq> None" "pop_class n \<noteq> None" "lookup env = Some cs" "status_write env"
  shows "attempts (fst (snd (processNotification env db n))) =
           (if last_status (doc n) = ''Closed'' \<and> seatStatus cs = ''Open'' then 1 else 0)"
proof (cases "last_status (doc n) = ''Closed'' \<and> seatStatus cs = ''Open''")
  case True
  obtain effs where e: "sendNotificationEmail (emailTransporter env) n cs = (effs, Inr ())" "attempts effs = 1"
    by (rule sendNotificationEmail_cases)
  with True assms show ?thesis
    by (auto simp: processNotification_def processNotification_try_def Let_def)
next
  case False
  with assms show ?thesis
    by (auto simp: processNotification_def processNotification_try_def Let_def attempts_Nil)
qed

lemma processNotification_record:
  assumes "pop_user n \<noteq> None" "pop_class n \<noteq> None" "lookup env = Some cs" "status_write env"
    and "findNotificationById (notification_oid (doc n)) (notification_coll db) = Some d"
  shows "\<exists>d'. findNotificationById (notification_oid (doc n))
                (notification_coll (fst (processNotification env db n))) = Some d' \<and>
              last_status d' = seatStatus cs \<and> last_checked d' = checked_at env \<and>
              user_id d' = user_id d \<and> class_id d' = class_id d"
proof -
  obtain effs where e: "sendNotificationEmail (emailTransporter env) n cs = (effs, Inr ())"
    by (rule sendNotificationEmail_cases)
  with assms show ?thesis
    by (auto simp: processNotification_def processNotification_try_def Let_def
        update_notifications_def find_after_update)
qed

lemma populate_simps:
  "doc (populate db d) = d"
  "pop_user (populate db d) = findUserById (user_id d) (user_coll db)"
  "pop_class (populate db d) = findClassById (class_id d) (class_coll db)"
  by (simp_all add: populate_def)

lemma observe_edges:
  assumes "findNotificationById i (notification_coll db) = Some d"
    and "findUserById (user_id d) (user_coll db) \<noteq> None"
    and "findClassById (class_id d) (class_coll db) \<noteq> None"
  shows "attempts (snd (observe db i envs)) = edges (last_status d # observed envs)"
  using assms
proof (induction envs arbitrary: db d)
  case Nil
  then show ?case by (simp add: attempts_Nil)
next
  case (Cons env envs)
  let ?n = "populate db d"
  have i: "notification_oid d = i" using Cons.prems(1) by (rule find_oid)
  show ?case
  proof (cases "lookup env = None \<or> \<not> status_write env")
    case True
    then have "processNotification env db ?n = (db, [], Inr None)"
      by (rule processNotification_skip)
    moreover have "observed (env # envs) = observed envs"
      using True by (auto split: option.splits)
    ultimately show ?thesis
      using Cons.prems Cons.IH [OF Cons.prems]
      by (simp add: split_def)
  next
    case False
    then obtain cs where cs: "lookup env = Some cs" and w: "status_write env" by auto
    obtain db1 effs r where p: "processNotification env db ?n = (db1, effs, r)"
      by (cases "processNotification env db ?n") auto
    have v: "pop_user ?n \<noteq> None" "pop_class ?n \<noteq> None"
      using Cons.prems by (simp_all add: populate_simps)
    have a: "attempts effs = (if last_status d = ''Closed'' \<and> seatStatus cs = ''Open'' then 1 else 0)"
      using processNotification_attempts [OF v cs w, of db] p by (simp add: populate_simps)
    obtain d' where d': "findNotificationById i (notification_coll db1) = Some d'"
      "last_status d' = seatStatus cs" "user_id d' = user_id d" "class_id d' = class_id d"
      using processNotification_record [OF v cs w, of db d] Cons.prems(1) p i
      by (auto simp: populate_simps)
    have c: "user_coll db1 = user_coll db" "class_coll db1 = class_coll db"
      using processNotification_colls [of env db ?n] p by simp_all
    have "attempts (snd (observe db1 i envs)) = edges (last_status d' # observed envs)"
      using Cons.IH [OF d'(1)] Cons.prems d'(3,4) c by simp
    then show ?thesis
      using Cons.prems(1) p a cs w d'(2)
      by (simp add: split_def attempts_append)
  qed
qed

text \<open>
  C1. For a tracking record loaded from the store whose user and class exist, and a
  cycle whose lookup resolved with a status that the store then took:
  \<^verbatim>\<open>sendNotificationEmail\<close> is called once if the loaded status is Closed and the
  new one is Open, and not at all for any other pair; the stored status is the new
  one either way. Over any sequence of cycles the number of calls is the number of
  Closed-to-Open edges in the sequence of statuses that reached the comparison,
  starting from the stored one.
\<close>

theorem notify_iff_closed_to_open:
  assumes "findNotificationById i (notification_coll db) = Some d"
    and "findUserById (user_id d) (user_coll db) \<noteq> None"
    and "findClassById (class_id d) (class_coll db) \<noteq> None"
  shows "(lookup env = Some cs \<and> status_write env \<longrightarrow>
            (case processNotification env db (populate db d) of
               (db', effs, r) \<Rightarrow>
                 attempts effs = (if last_status d = ''Closed'' \<and> seatStatus cs = ''Open'' then 1 else 0) \<and>
                 map_option last_status (findNotificationById i (notification_coll db')) =
                   Some (seatStatus cs))) \<and>
         attempts (snd (observe db i envs)) = edges (last_status d # observed envs)"
proof (intro conjI impI)
  assume a: "lookup env = Some cs \<and> status_write env"
  let ?n = "populate db d"
  have i: "notification_oid d = i" using assms(1) by (rule find_oid)
  have v: "pop_user ?n \<noteq> None" "pop_class ?n \<noteq> None"
    using assms by (simp_all add: populate_simps)
  from a have cs: "lookup env = Some cs" and w: "status_write env" by simp_all
  show "case processNotification env db ?n of
          (db', effs, r) \<Rightarrow>
            attempts effs = (if last_status d = ''Closed'' \<and> seatStatus cs = ''Open'' then 1 else 0) \<and>
            map_option last_status (findNotificationById i (notification_coll db')) = Some (seatStatus cs)"
    using processNotification_attempts [OF v cs w, of db]
      processNotification_record [OF v cs w, of db d] assms(1) i
    by (auto simp: populate_simps split_def)
next
  show "attempts (snd (observe db i envs)) = edges (last_status d # observed envs)"
    using assms by (rule observe_edges)
qed

lemma example_lookups:
  "findNotificationById 3 (notification_coll example_db) = Some example_record"
  "findUserById (user_id example_record) (user_coll example_db) \<noteq> None"
  "findClassById (class_id example_record) (class_coll example_db) \<noteq> None"
  by (simp_all add: example_db_def example_record_def findNotificationById_def findUserById_def
      findClassById_def)

theorem notify_iff_closed_to_open_witness:
  "findNotificationById 3 (notification_coll example_db) = Some example_record \<and>
   findUserById (user_id example_record) (user_coll example_db) \<noteq> None \<and>
   findClassById (class_id example_record) (class_coll example_db) \<noteq> None \<and>
   (case processNotification (example_env ''Open'' 1 None) example_db
           (populate example_db example_record) of
      (db', effs, r) \<Rightarrow>
        attempts effs = 1 \<and>
        map_option last_status (findNotificationById 3 (notification_coll db')) = Some ''Open'') \<and>
   attempts (snd (observe example_db 3
     [example_env ''Open'' 1 None, example_env ''Open'' 2 None,
      example_env ''Closed'' 3 None, example_env ''Open'' 4 None])) = 2"
  using notify_iff_closed_to_open [OF example_lookups,
      of "example_env ''Open'' 1 None" "\<lparr>error_field = None, seatStatus = ''Open''\<rparr>"
         "[example_env ''Open'' 1 None, example_env ''Open'' 2 None,
           example_env ''Closed'' 3 None, example_env ''Open'' 4 None]"]
    example_lookups
  by (simp add: example_env_def example_record_def)

lemma processNotification_returns: "\<exists>v. snd (snd (processNotification env db n)) = Inr v"
  by (auto simp: processNotification_def split: prod.splits sum.splits)

lemma processNotification_not_closed:
  assumes "last_status (doc n) \<noteq> ''Closed''"
  shows "attempts (fst (snd (processNotification env db n))) = 0"
  using assms
  by (auto simp: processNotification_def processNotification_try_def Let_def attempts_Nil
      split: option.splits)

text \<open>
  C2. For a tracking record loaded from the store whose lookup resolved and whose
  status write the store took: whatever the transporter is (absent, accepting,
  rejecting), the stored \<^verbatim>\<open>last_status\<close> and \<^verbatim>\<open>last_checked\<close> are the new ones,
  \<^verbatim>\<open>sendNotificationEmail\<close> and \<^verbatim>\<open>processNotification\<close> return without an error,
  and after an Open status the next cycle on the reloaded record makes no send
  attempt.
\<close>

theorem status_persisted_whatever_mail:
  assumes "findNotificationById i (notification_coll db) = Some d"
    and "findUserById (user_id d) (user_coll db) \<noteq> None"
    and "findClassById (class_id d) (class_coll db) \<noteq> None"
    and "lookup env = Some cs" and "status_write env"
  shows "case processNotification (env\<lparr>emailTransporter := tr\<rparr>) db (populate db d) of
           (db', effs, r) \<Rightarrow>
             (\<exists>d'. findNotificationById i (notification_coll db') = Some d' \<and>
                   last_status d' = seatStatus cs \<and> last_checked d' = checked_at env \<and>
                   (seatStatus cs = ''Open'' \<longrightarrow>
                      attempts (fst (snd (processNotification env2 db' (populate db' d')))) = 0)) \<and>
             (\<exists>v. r = Inr v) \<and>
             snd (sendNotificationEmail tr (populate db d) cs) = Inr ()"
proof -
  let ?env = "env\<lparr>emailTransporter := tr\<rparr>" and ?n = "populate db d"
  obtain db' effs r where p: "processNotification ?env db ?n = (db', effs, r)"
    by (cases "processNotification ?env db ?n") auto
  have i: "notification_oid d = i" using assms(1) by (rule find_oid)
  have v: "pop_user ?n \<noteq> None" "pop_class ?n \<noteq> None"
    using assms by (simp_all add: populate_simps)
  have e: "lookup ?env = Some cs" "status_write ?env" using assms by simp_all
  obtain d' where d': "findNotificationById i (notification_coll db') = Some d'"
      "last_status d' = seatStatus cs" "last_checked d' = checked_at env"
    using processNotification_record [OF v e, of db d] assms(1) p i
    by (auto simp: populate_simps)
  have "seatStatus cs = ''Open'' \<longrightarrow>
          attempts (fst (snd (processNotification env2 db' (populate db' d')))) = 0"
    using d'(2) by (auto intro!: processNotification_not_closed simp: populate_simps)
  moreover have "\<exists>v. r = Inr v"
    using processNotification_returns [of ?env db ?n] p by simp
  ultimately show ?thesis
    using p d' by (simp add: sendNotificationEmail_returns)
qed

theorem status_persisted_whatever_mail_witness:
  "findNotificationById 3 (notification_coll example_db) = Some example_record \<and>
   findUserById (user_id example_record) (user_coll example_db) \<noteq> None \<and>
   findClassById (class_id example_record) (class_coll example_db) \<noteq> None \<and>
   lookup (example_env ''Open'' 7 None) = Some \<lparr>error_field = None, seatStatus = ''Open''\<rparr> \<and>
   status_write (example_env ''Open'' 7 None) \<and>
   (case processNotification (example_env ''Open'' 7 (Some Rejects)) example_db
           (populate example_db example_record) of
      (db', effs, r) \<Rightarrow>
        (\<exists>d'. findNotificationById 3 (notification_coll db') = Some d' \<and>
              last_status d' = ''Open'' \<and> last_checked d' = 7 \<and>
              attempts (fst (snd (processNotification (example_env ''Open'' 8 (Some Accepts)) db'
                 (populate db' d')))) = 0) \<and>
        (\<exists>v. r = Inr v))"
  using status_persisted_whatever_mail [where env = "example_env ''Open'' 7 None"
      and cs = "\<lparr>error_field = None, seatStatus = ''Open''\<rparr>" and tr = "Some Rejects"
      and ?env2.0 = "example_env ''Open'' 8 (Some Accepts)", OF example_lookups]
    example_lookups
  by (simp add: example_env_def split_def)

lemma findOne_mem: "findOne P ds = Some d \<Longrightarrow> d \<in> set ds"
  by (induction ds) (auto split: if_splits)

lemma sum_after_update:
  assumes "findOne P ds = Some d"
  shows "sum_list (map g (filter A (findOneAndUpdate P f ds))) + (if A d then g d else 0) =
         sum_list (map g (filter A ds)) + (if A (f d) then g (f d) else (0::nat))"
  using assms by (induction ds) (auto split: if_splits)

lemma totalSent_eq:
  "totalSent (getNotificationStats db) =
     sum_list (map notification_count (filter is_active (notification_coll db)))"
  by (simp add: getNotificationStats_def Let_def)

lemma sendNotificationEmail_deliveries:
  "tr \<noteq> Some Accepts \<Longrightarrow> deliveries (fst (sendNotificationEmail tr n cs)) = 0"
  by (cases tr)
    (auto simp: sendNotificationEmail_def sendNotificationEmail_try_def sendMail_def deliveries_def
      split: option.splits mail_channel.splits)

text \<open>
  C9. When the loaded status is Closed, the lookup says Open and the store takes both
  writes, then whatever the transporter is (absent, accepting, rejecting) the stored
  \<^verbatim>\<open>notification_count\<close> is one more than the loaded one, \<^verbatim>\<open>notification_sent\<close>
  is the current time and the result says \<^verbatim>\<open>notificationSent\<close>; unless the
  transporter accepted, nothing was delivered. For an active record the
  \<^verbatim>\<open>totalNotificationsSent\<close> of \<^verbatim>\<open>getNotificationStats\<close> grows by one all the same.
\<close>

theorem count_tracks_attempts_not_deliveries:
  assumes "findNotificationById i (notification_coll db) = Some d"
    and "findUserById (user_id d) (user_coll db) \<noteq> None"
    and "findClassById (class_id d) (class_coll db) \<noteq> None"
    and "lookup env = Some cs" and "status_write env" and "sent_write env"
    and "last_status d = ''Closed''" and "seatStatus cs = ''Open''"
  shows "case processNotification (env\<lparr>emailTransporter := tr\<rparr>) db (populate db d) of
           (db', effs, r) \<Rightarrow>
             (\<exists>d'. findNotificationById i (notification_coll db') = Some d' \<and>
                   notification_count d' = notification_count d + 1 \<and>
                   notification_sent d' = Some (sent_at env)) \<and>
             sent r \<and>
             (tr \<noteq> Some Accepts \<longrightarrow> deliveries effs = 0) \<and>
             (is_active d \<longrightarrow>
                totalSent (getNotificationStats db') = totalSent (getNotificationStats db) + 1)"
proof -
  let ?n = "populate db d"
  let ?f1 = "\<lambda>x. x\<lparr>last_checked := checked_at env, last_status := seatStatus cs\<rparr>"
  let ?f2 = "\<lambda>x. x\<lparr>notification_sent := Some (sent_at env),
                      notification_count := notification_count d + 1\<rparr>"
  let ?ds1 = "findByIdAndUpdate i ?f1 (notification_coll db)"
  let ?ds2 = "findByIdAndUpdate i ?f2 ?ds1"
  have i: "notification_oid d = i" using assms(1) by (rule find_oid)
  obtain effs where e: "sendNotificationEmail tr ?n cs = (effs, Inr ())"
    by (rule sendNotificationEmail_cases)
  have p: "processNotification (env\<lparr>emailTransporter := tr\<rparr>) db ?n =
             (db\<lparr>notification_coll := ?ds2\<rparr>, effs,
              Inr (Some \<lparr>classNumber = class_number d, status = seatStatus cs,
                         notificationSent = True\<rparr>))"
    using assms e i
    by (simp add: processNotification_def processNotification_try_def Let_def
        update_notifications_def populate_simps)
  have f1: "findNotificationById i ?ds1 = Some (?f1 d)"
    using assms(1) by (simp add: find_after_update)
  have f2: "findNotificationById i ?ds2 = Some (?f2 (?f1 d))"
    by (simp add: find_after_update assms(1))
  have del: "tr \<noteq> Some Accepts \<longrightarrow> deliveries effs = 0"
    using sendNotificationEmail_deliveries [of tr ?n cs] e by simp
  have tot: "is_active d \<longrightarrow>
      sum_list (map notification_count (filter is_active ?ds2)) =
      sum_list (map notification_count (filter is_active (notification_coll db))) + 1"
  proof
    assume a: "is_active d"
    have "sum_list (map notification_count (filter is_active ?ds1)) + notification_count d =
          sum_list (map notification_count (filter is_active (notification_coll db))) + notification_count d"
      using sum_after_update [of "\<lambda>x. notification_oid x = i" "notification_coll db" d
          notification_count is_active ?f1] assms(1) a
      by (simp add: findNotificationById_def findByIdAndUpdate_def)
    moreover have "sum_list (map notification_count (filter is_active ?ds2)) + notification_count d =
          sum_list (map notification_count (filter is_active ?ds1)) + (notification_count d + 1)"
      using sum_after_update [of "\<lambda>x. notification_oid x = i" ?ds1 "?f1 d"
          notification_count is_active ?f2] f1 a
      by (simp add: findNotificationById_def findByIdAndUpdate_def)
    ultimately show "sum_list (map notification_count (filter is_active ?ds2)) =
      sum_list (map notification_count (filter is_active (notification_coll db))) + 1"
      by simp
  qed
  show ?thesis
    unfolding p using f2 del tot by (simp add: totalSent_eq sent_def)
qed

theorem count_tracks_attempts_not_deliveries_witness:
  "findNotificationById 3 (notification_coll example_db) = Some example_record \<and>
   findUserById (user_id example_record) (user_coll example_db) \<noteq> None \<and>
   findClassById (class_id example_record) (class_coll example_db) \<noteq> None \<and>
   lookup (example_env ''Open'' 7 None) = Some \<lparr>error_field = None, seatStatus = ''Open''\<rparr> \<and>
   status_write (example_env ''Open'' 7 None) \<and> sent_write (example_env ''Open'' 7 None) \<and>
   last_status example_record = ''Closed'' \<and> is_active example_record \<and>
   (case processNotification (example_env ''Open'' 7 (Some Rejects)) example_db
           (populate example_db example_record) of
      (db', effs, r) \<Rightarrow>
        (\<exists>d'. findNotificationById 3 (notification_coll db') = Some d' \<and>
              notification_count d' = 1 \<and> notification_sent d' = Some 7) \<and>
        sent r \<and> deliveries effs = 0 \<and>
        totalSent (getNotificationStats db') = totalSent (getNotificationStats example_db) + 1)"
  using count_tracks_attempts_not_deliveries [where env = "example_env ''Open'' 7 None"
      and cs = "\<lparr>error_field = None, seatStatus = ''Open''\<rparr>" and tr = "Some Rejects",
      OF example_lookups]
    example_lookups
  by (simp add: example_env_def example_record_def split_def)

section \<open>Tracking creation and removal\<close>

text \<open>
  C10. When no class document has the given id, \<^verbatim>\<open>handleClassAdded\<close> returns
  without an error and leaves the store as it was, whatever the store calls do.
\<close>

theorem handleClassAdded_unknown_class:
  assumes "findClassById classId (class_coll db) = None"
  shows "handleClassAdded env db userId classId = (db, Inr ())"
  using assms by (simp add: handleClassAdded_def handleClassAdded_try_def)

theorem handleClassAdded_unknown_class_witness:
  "findClassById 9 (class_coll example_db) = None \<and>
   handleClassAdded \<lparr>models_available = True, read_ok = True, write_ok = True, created_at = 5\<rparr>
     example_db 1 9 = (example_db, Inr ())"
  using handleClassAdded_unknown_class [of 9 example_db
      "\<lparr>models_available = True, read_ok = True, write_ok = True, created_at = 5\<rparr>" 1]
  by (simp add: example_db_def findClassById_def)

section \<open>The script queue\<close>

lemma try_fields:
  "children (fst (executeClassScript_try fenv dir s)) = children s"
  "currentScriptCount (fst (executeClassScript_try fenv dir s)) = currentScriptCount s"
  "scriptCallQueue (fst (executeClassScript_try fenv dir s)) = scriptCallQueue s"
  "loop (fst (executeClassScript_try fenv dir s)) = loop s"
  "timers (fst (executeClassScript_try fenv dir s)) = timers s"
  "resolved (fst (executeClassScript_try fenv dir s)) = resolved s"
  by (auto simp: executeClassScript_try_def Let_def split: exec_outcome.splits json_parse.splits)

lemma finish_fields:
  "children (executeClassScript_finish fenv child s) = remove1 child (children s)"
  "currentScriptCount (executeClassScript_finish fenv child s) = currentScriptCount s - 1"
  "scriptCallQueue (executeClassScript_finish fenv child s) = scriptCallQueue s"
  "loop (executeClassScript_finish fenv child s) = loop s"
  using try_fields [of fenv "snd child" s]
  by (auto simp: executeClassScript_finish_def Let_def split_def split: sum.splits)

lemma start_fields:
  "children (executeClassScript_start lenv e s) = children s @ [(e, tempDir (uniqueId lenv))]"
  "currentScriptCount (executeClassScript_start lenv e s) = currentScriptCount s"
  "scriptCallQueue (executeClassScript_start lenv e s) = scriptCallQueue s"
  "timers (executeClassScript_start lenv e s) = timers s"
  "resolved (executeClassScript_start lenv e s) = resolved s"
  by (simp_all add: executeClassScript_start_def)

lemma dispatch_inv:
  assumes "scriptCallQueue s \<noteq> []" "children s = []" "currentScriptCount s = 0"
  shows "queue_inv (dispatch now lenv s)"
  using assms by (cases "scriptCallQueue s") (simp_all add: dispatch_def queue_inv_def start_fields)

lemma step_inv: "queue_inv s \<Longrightarrow> queue_inv (step s ev)"
proof (cases ev)
  case (Lookup c r now)
  assume "queue_inv s" with Lookup show ?thesis
    by (simp add: queue_inv_def getClassStatus_def)
next
  case (LoopWakes now lenv)
  assume i: "queue_inv s"
  show ?thesis
  proof (cases "loop s")
    case Polling
    show ?thesis
    proof (cases "isRunning s \<and> scriptCallQueue s \<noteq> [] \<and> currentScriptCount s < maxConcurrentScripts")
      case True
      with i have c: "children s = []" "currentScriptCount s = 0"
        by (auto simp: queue_inv_def maxConcurrentScripts_def)
      show ?thesis
      proof (cases "now - lastScriptStartTime s < minScriptInterval")
        case w: True
        with True Polling LoopWakes c show ?thesis
          by (simp add: processScriptQueue_def queue_inv_def)
      next
        case False
        with True Polling LoopWakes dispatch_inv [of s now lenv] c show ?thesis
          by (simp add: processScriptQueue_def)
      qed
    next
      case False
      with i Polling LoopWakes show ?thesis
        by (auto simp: processScriptQueue_def queue_inv_def)
    qed
  next
    case Spacing
    with i have "scriptCallQueue s \<noteq> []" "children s = []" "currentScriptCount s = 0"
      by (auto simp: queue_inv_def)
    with Spacing LoopWakes dispatch_inv [of s now lenv] show ?thesis
      by (simp add: processScriptQueue_def)
  next
    case Exited
    with i LoopWakes show ?thesis by (simp add: processScriptQueue_def)
  qed
next
  case (ChildExits k fenv)
  assume i: "queue_inv s"
  show ?thesis
  proof (cases "k < length (children s)")
    case True
    with i obtain c where c: "children s = [c]" "k = 0"
      by (cases "children s") (auto simp: queue_inv_def)
    with i ChildExits show ?thesis
      by (auto simp: queue_inv_def finish_fields)
  next
    case False
    with i ChildExits show ?thesis by simp
  qed
next
  case (TimerFires k now)
  assume "queue_inv s" with TimerFires show ?thesis
    by (simp add: queue_inv_def retry_timer_def)
next
  case Stop
  assume "queue_inv s" with Stop show ?thesis
    by (simp add: queue_inv_def)
qed

lemma foldl_step_inv: "queue_inv s \<Longrightarrow> queue_inv (foldl step s evs)"
  by (induction evs arbitrary: s) (simp_all add: step_inv)

lemma run_inv: "queue_inv (run evs)"
  unfolding run_def by (rule foldl_step_inv) (simp add: queue_inv_def started_def)

lemma count_decreases_only_at_exit:
  assumes "currentScriptCount (step s ev) < currentScriptCount s"
  shows "\<exists>k fenv. ev = ChildExits k fenv \<and> k < length (children s)"
proof (cases ev)
  case (LoopWakes now lenv)
  have "currentScriptCount s \<le> currentScriptCount (dispatch now lenv s)"
    by (cases "scriptCallQueue s") (simp_all add: dispatch_def start_fields)
  then have "currentScriptCount s \<le> currentScriptCount (processScriptQueue now lenv s)"
    by (simp add: processScriptQueue_def split: loop_pc.splits)
  with assms LoopWakes show ?thesis by simp
qed (use assms in \<open>auto simp: getClassStatus_def retry_timer_def split: if_splits\<close>)

text \<open>
  C3. After any sequence of events of the event loop (lookup requests in any number,
  wake-ups of the admission loop, exits of children, retry timers, \<^verbatim>\<open>stop()\<close>), at
  most one child process is in flight and \<^verbatim>\<open>currentScriptCount\<close> is their number.
  An event that starts a child finds the count below \<^verbatim>\<open>maxConcurrentScripts\<close> and
  leaves it one higher; the count goes down only at the exit of a child in flight.
\<close>

theorem at_most_one_script_in_flight:
  "length (children (run evs)) \<le> 1 \<and>
   currentScriptCount (run evs) = int (length (children (run evs))) \<and>
   (length (children (run evs)) < length (children (step (run evs) ev)) \<longrightarrow>
      currentScriptCount (run evs) < maxConcurrentScripts \<and>
      currentScriptCount (step (run evs) ev) = currentScriptCount (run evs) + 1) \<and>
   (currentScriptCount (step (run evs) ev) < currentScriptCount (run evs) \<longrightarrow>
      (\<exists>k fenv. ev = ChildExits k fenv \<and> k < length (children (run evs))))"
proof -
  have a: "queue_inv (run evs)" by (rule run_inv)
  then have b: "queue_inv (step (run evs) ev)" by (rule step_inv)
  from a have a1: "currentScriptCount (run evs) = int (length (children (run evs)))"
    and a2: "length (children (run evs)) \<le> 1"
    by (simp_all add: queue_inv_def)
  from b have b1: "currentScriptCount (step (run evs) ev) = int (length (children (step (run evs) ev)))"
    and b2: "length (children (step (run evs) ev)) \<le> 1"
    by (simp_all add: queue_inv_def)
  have "length (children (run evs)) < length (children (step (run evs) ev)) \<longrightarrow>
      currentScriptCount (run evs) < maxConcurrentScripts \<and>
      currentScriptCount (step (run evs) ev) = currentScriptCount (run evs) + 1"
    unfolding a1 b1 maxConcurrentScripts_def using b2 by linarith
  with a1 a2 count_decreases_only_at_exit [of "run evs" ev] show ?thesis
    by blast
qed

lemma run_snoc: "run (evs @ [ev]) = step (run evs) ev"
  by (simp add: run_def)

lemma run_example_burst:
  "run example_burst =
     started\<lparr>scriptCallQueue :=
       [\<lparr>entry_classNumber = ''12345'', resolve = 0, retries = 0, timestamp = 0\<rparr>,
        \<lparr>entry_classNumber = ''67890'', resolve = 1, retries = 0, timestamp = 0\<rparr>]\<rparr>"
  by (simp add: example_burst_def run_def getClassStatus_def started_def)

theorem at_most_one_script_in_flight_witness:
  "length (children (run example_burst)) <
     length (children (step (run example_burst) (LoopWakes 5000 example_launch))) \<and>
   currentScriptCount (run example_burst) < maxConcurrentScripts \<and>
   currentScriptCount (step (run example_burst) (LoopWakes 5000 example_launch)) = 1 \<and>
   currentScriptCount (step (run (example_burst @ [LoopWakes 5000 example_launch]))
        (ChildExits 0 (example_finish Timeout))) <
     currentScriptCount (run (example_burst @ [LoopWakes 5000 example_launch])) \<and>
   length (children (run (example_burst @ [LoopWakes 5000 example_launch,
        LoopWakes 5500 example_launch, LoopWakes 8000 example_launch]))) \<le> 1"
proof -
  let ?w = "LoopWakes 5000 example_launch"
  have g: "length (children (run example_burst)) < length (children (step (run example_burst) ?w))"
    by (simp add: run_example_burst processScriptQueue_def dispatch_def started_def
        maxConcurrentScripts_def minScriptInterval_def start_fields)
  have r3: "children (run (example_burst @ [?w])) \<noteq> []"
    unfolding run_snoc using g by auto
  have d: "currentScriptCount (step (run (example_burst @ [?w])) (ChildExits 0 (example_finish Timeout)))
           < currentScriptCount (run (example_burst @ [?w]))"
    using r3 by (simp add: finish_fields)
  show ?thesis
    using at_most_one_script_in_flight [of example_burst ?w] g d
      at_most_one_script_in_flight [of "example_burst @ [?w]" "ChildExits 0 (example_finish Timeout)"]
      at_most_one_script_in_flight [of "example_burst @ [?w, LoopWakes 5500 example_launch,
        LoopWakes 8000 example_launch]" Stop]
    by (simp add: run_snoc)
qed

lemma try_failure:
  assumes "outcome fenv = Timeout \<or> outcome fenv = ProcessFailure \<or> outcome fenv = Stdout SyntaxError"
  shows "\<exists>err. snd (executeClassScript_try fenv dir s) = Inl err"
  using assms by (auto simp: executeClassScript_try_def Let_def)

lemma finish_failure:
  assumes "snd (executeClassScript_try fenv dir s) = Inl err"
  shows "timers (executeClassScript_finish fenv (e, dir) s) =
           (if retries e < maxRetries
            then timers s @ [(retryDelay (retries e) (random fenv), e\<lparr>retries := retries e + 1\<rparr>)]
            else timers s)"
    and "resolved (executeClassScript_finish fenv (e, dir) s) =
           (if retries e < maxRetries then resolved s else resolved s @ [(resolve e, None)])"
  using assms try_fields [of fenv dir s]
  by (auto simp: executeClassScript_finish_def Let_def split_def)

lemma finish_resolves:
  assumes "snd (executeClassScript_try fenv dir s) = Inr v"
  shows "timers (executeClassScript_finish fenv (e, dir) s) = timers s"
    and "resolved (executeClassScript_finish fenv (e, dir) s) = resolved s @ [(resolve e, v)]"
  using assms try_fields [of fenv dir s]
  by (auto simp: executeClassScript_finish_def Let_def split_def)

text \<open>Rounding to the nearest double.\<close>

lemma round_even_of_int: "round_even (of_int n) = n"
  by (simp add: round_even_def)

lemma round_even_cases:
  "(frac x < 1 / 2 \<longrightarrow> round_even x = \<lfloor>x\<rfloor>) \<and> (frac x > 1 / 2 \<longrightarrow> round_even x = \<lfloor>x\<rfloor> + 1) \<and>
   \<lfloor>x\<rfloor> \<le> round_even x \<and> round_even x \<le> \<lfloor>x\<rfloor> + 1"
  unfolding round_even_def round_def frac_def by (auto; linarith)

lemma round_even_mono: "x \<le> y \<Longrightarrow> round_even x \<le> round_even y"
proof -
  assume xy: "x \<le> y"
  then have f: "\<lfloor>x\<rfloor> \<le> \<lfloor>y\<rfloor>" by (rule floor_mono)
  show ?thesis
  proof (cases "\<lfloor>x\<rfloor> < \<lfloor>y\<rfloor>")
    case True
    then show ?thesis using round_even_cases [of x] round_even_cases [of y] by linarith
  next
    case False
    with f have e: "\<lfloor>x\<rfloor> = \<lfloor>y\<rfloor>" by simp
    then have fr: "frac x \<le> frac y" using xy by (simp add: frac_def)
    consider "frac y < 1 / 2" | "frac y > 1 / 2" | "frac y = 1 / 2" "frac x < 1 / 2" | "frac y = 1 / 2" "frac x = 1 / 2"
      using fr by linarith
    then show ?thesis
    proof cases
      case 1
      then show ?thesis using fr e round_even_cases [of x] round_even_cases [of y] by auto
    next
      case 2
      then show ?thesis using e round_even_cases [of x] round_even_cases [of y] by auto
    next
      case 3
      then show ?thesis using e round_even_cases [of x] round_even_cases [of y] by auto
    next
      case 4
      then have "x = y" using e by (simp add: frac_def)
      then show ?thesis by simp
    qed
  qed
qed


lemma floor_log2: "0 < x \<Longrightarrow> \<lfloor>log 2 x\<rfloor> = k \<longleftrightarrow> 2 powi k \<le> x \<and> x < 2 powi (k + 1)"
  using floor_log_eq_powr_iff [of x 2 k] powr_real_of_int' [of 2 k] powr_real_of_int' [of 2 "k + 1"]
  by simp

lemma binade_eq:
  assumes "2 powi e \<le> x" "x < 2 powi (e + 1)" "- 1022 \<le> e"
  shows "binade x = e"
proof -
  have "0 < (2::real) powi e" by simp
  with assms have p: "0 < x" by linarith
  with assms have "\<lfloor>log 2 x\<rfloor> = e" by (simp add: floor_log2)
  with p assms(3) show ?thesis by (simp add: binade_def)
qed

lemma double_fixed:
  assumes "2 powi e \<le> x" "x < 2 powi (e + 1)" "- 1022 \<le> e" "x / 2 powi (e - 52) \<in> \<int>"
  shows "double x = x"
proof -
  have "0 < (2::real) powi e" by simp
  with assms have p: "x \<noteq> 0" by linarith
  obtain n where n: "x / 2 powi (e - 52) = of_int n" using assms(4) by (auto elim: Ints_cases)
  have "of_int n * 2 powi (e - 52) = x"
    using n by (simp add: field_simps)
  then show ?thesis
    using p by (simp add: double_def binade_eq [OF assms(1-3)] n round_even_of_int)
qed

lemma double_mono_binade:
  assumes "2 powi e \<le> x" "x \<le> y" "y < 2 powi (e + 1)" "- 1022 \<le> e"
  shows "double x \<le> double y"
proof -
  have "0 < (2::real) powi e" by simp
  with assms have p: "x \<noteq> 0" "y \<noteq> 0" by linarith+
  have bx: "binade x = e" using assms by (intro binade_eq) auto
  have by': "binade y = e" using assms by (intro binade_eq) auto
  have "x / 2 powi (e - 52) \<le> y / 2 powi (e - 52)"
    using assms(2) by (simp add: divide_right_mono)
  then have "round_even (x / 2 powi (e - 52)) \<le> round_even (y / 2 powi (e - 52))"
    by (rule round_even_mono)
  then show ?thesis
    using p by (simp add: double_def bx by' mult_right_mono)
qed

lemma double_nonneg: "0 \<le> x \<Longrightarrow> 0 \<le> double x"
proof -
  assume "0 \<le> x"
  then have "0 \<le> x / 2 powi (binade x - 52)" by simp
  then have "0 \<le> \<lfloor>x / 2 powi (binade x - 52)\<rfloor>" by simp
  then have "0 \<le> round_even (x / 2 powi (binade x - 52))"
    using round_even_cases [of "x / 2 powi (binade x - 52)"] by linarith
  then show ?thesis by (simp add: double_def)
qed

lemma double_le_next:
  assumes "0 < x"
  shows "double x \<le> 2 powi (binade x + 1)"
proof -
  let ?e = "binade x" and ?k = "\<lfloor>log 2 x\<rfloor>"
  have "x < 2 powi (?k + 1)" using floor_log2 [OF assms, of ?k] by simp
  moreover have "(2::real) powi (?k + 1) \<le> 2 powi (?e + 1)"
    using assms by (intro power_int_increasing) (simp_all add: binade_def)
  ultimately have "x < 2 powi (?e + 1)" by linarith
  then have "x / 2 powi (?e - 52) < 2 powi (?e + 1) / 2 powi (?e - 52)"
    by (simp add: divide_strict_right_mono)
  also have "(2::real) powi (?e + 1) / 2 powi (?e - 52) = 2 powi 53"
    by (simp add: power_int_diff [symmetric])
  finally have "x / 2 powi (?e - 52) \<le> of_int (2 ^ 53)" by simp
  then have "round_even (x / 2 powi (?e - 52)) \<le> round_even (of_int (2 ^ 53))"
    by (rule round_even_mono)
  then have "round_even (x / 2 powi (?e - 52)) \<le> 2 ^ 53" by (simp only: round_even_of_int)
  then have "real_of_int (round_even (x / 2 powi (?e - 52))) \<le> 2 powi 53"
    by (metis of_int_le_iff of_int_numeral of_int_power power_int_numeral)
  then have "real_of_int (round_even (x / 2 powi (?e - 52))) * 2 powi (?e - 52) \<le> 2 powi 53 * 2 powi (?e - 52)"
    by (intro mult_right_mono) simp_all
  also have "(2::real) powi 53 * 2 powi (?e - 52) = 2 powi (53 + (?e - 52))"
    by (rule power_int_add [symmetric]) simp
  also have "53 + (?e - 52) = ?e + 1" by simp
  finally show ?thesis using assms by (simp add: double_def)
qed

lemma jitter_bounds:
  assumes "0 \<le> r" "r \<le> 1 - 1 / 2 ^ 53"
  shows "0 \<le> double (r * 1000)" "double (r * 1000) < 1000"
proof -
  let ?x = "r * 1000"
  show "0 \<le> double ?x" using assms(1) by (intro double_nonneg) simp
  have ub: "?x \<le> 1000 - 1000 / 2 ^ 53" using assms(2) by (simp add: field_simps)
  consider "?x = 0" | "0 < ?x" "?x < 512" | "512 \<le> ?x" using assms(1) by fastforce
  then show "double ?x < 1000"
  proof cases
    case 1
    then show ?thesis by (simp add: double_def)
  next
    case 2
    let ?k = "\<lfloor>log 2 ?x\<rfloor>"
    have "2 powi ?k \<le> ?x" using floor_log2 [OF 2(1), of ?k] by simp
    with 2(2) have "(2::real) powi ?k < 2 powi 9" by simp
    then have "?k < 9" by (rule power_int_le_imp_less_exp [rotated]) simp_all
    moreover have "\<bar>?x\<bar> = ?x" using 2(1) by simp
    ultimately have "binade ?x + 1 \<le> 9" by (simp add: binade_def)
    then have "(2::real) powi (binade ?x + 1) \<le> 2 powi 9"
      by (intro power_int_increasing) simp_all
    with double_le_next [OF 2(1)] show ?thesis by simp
  next
    case 3
    have b: "binade ?x = 9" using 3 ub by (intro binade_eq) simp_all
    let ?N = "1000 * 2 ^ 43 :: int"
    have "?x / 2 powi (9 - 52) \<le> of_int ?N - 125 / 128"
      using ub by (simp add: field_simps)
    then have "round_even (?x / 2 powi (9 - 52)) \<le> round_even (of_int ?N - 125 / 128)"
      by (rule round_even_mono)
    moreover have fl: "\<lfloor>real_of_int ?N - 125 / 128\<rfloor> = ?N - 1"
      by (rule floor_unique) simp_all
    then have "frac (real_of_int ?N - 125 / 128) < 1 / 2"
      unfolding frac_def fl by simp
    then have "round_even (of_int ?N - 125 / 128) = ?N - 1"
      using round_even_cases [of "of_int ?N - 125 / 128"] fl by simp
    ultimately have "round_even (?x / 2 powi (9 - 52)) \<le> ?N - 1" by simp
    then have "real_of_int (round_even (?x / 2 powi (9 - 52))) \<le> real_of_int (?N - 1)"
      by (simp only: of_int_le_iff)
    then have "real_of_int (round_even (?x / 2 powi (9 - 52))) * 2 powi (9 - 52)
        \<le> real_of_int (?N - 1) * 2 powi (9 - 52)"
      by (intro mult_right_mono) simp_all
    also have "real_of_int (?N - 1) * 2 powi (9 - 52) < 1000"
      by simp
    finally show ?thesis using 3 by (simp add: double_def b)
  qed
qed

lemma double_delay:
  assumes "2 powi e \<le> base" "base + 1000 < 2 powi (e + 1)" "- 1022 \<le> e"
    "base / 2 powi (e - 52) \<in> \<int>" "(base + 1000) / 2 powi (e - 52) \<in> \<int>"
    "0 \<le> j" "j < 1000"
  shows "double base = base" "base \<le> double (base + j)" "double (base + j) \<le> base + 1000"
proof -
  show b: "double base = base"
    using assms by (intro double_fixed [of e]) simp_all
  have t: "double (base + 1000) = base + 1000"
    using assms by (intro double_fixed [of e]) simp_all
  have "double base \<le> double (base + j)"
    using assms by (intro double_mono_binade [of e]) simp_all
  with b show "base \<le> double (base + j)" by simp
  have "double (base + j) \<le> double (base + 1000)"
    using assms by (intro double_mono_binade [of e]) simp_all
  with t show "double (base + j) \<le> base + 1000" by simp
qed

lemma retryDelay_bounds:
  assumes "n < 3" "0 \<le> rnd" "rnd \<le> 1 - 1 / 2 ^ 53"
  shows "retryDelay n rnd = double (2 ^ n * 3000 + double (rnd * 1000))"
    and "2 ^ n * 3000 \<le> retryDelay n rnd" and "retryDelay n rnd \<le> 2 ^ n * 3000 + 1000"
proof -
  let ?j = "double (rnd * 1000)"
  have j: "0 \<le> ?j" "?j < 1000" using jitter_bounds [OF assms(2,3)] by simp_all
  from assms(1) consider "n = 0" | "n = 1" | "n = 2" by linarith
  then have "double (2 ^ n * 3000) = 2 ^ n * 3000 \<and>
      2 ^ n * 3000 \<le> double (2 ^ n * 3000 + ?j) \<and> double (2 ^ n * 3000 + ?j) \<le> 2 ^ n * 3000 + 1000"
  proof cases
    case 1
    with double_delay [of 11 3000 ?j] j show ?thesis by simp
  next
    case 2
    with double_delay [of 12 6000 ?j] j show ?thesis by simp
  next
    case 3
    with double_delay [of 13 12000 ?j] j show ?thesis by simp
  qed
  then show "retryDelay n rnd = double (2 ^ n * 3000 + double (rnd * 1000))"
    and "2 ^ n * 3000 \<le> retryDelay n rnd" and "retryDelay n rnd \<le> 2 ^ n * 3000 + 1000"
    by (simp_all add: retryDelay_def)
qed

lemma retryDelay_mono:
  assumes "n + 1 < 3" "0 \<le> rnd" "rnd \<le> 1 - 1 / 2 ^ 53" "0 \<le> rnd'" "rnd' \<le> 1 - 1 / 2 ^ 53"
  shows "retryDelay n rnd \<le> retryDelay (n + 1) rnd'"
proof -
  have "n < 3" using assms(1) by simp
  from retryDelay_bounds(3) [OF this assms(2,3)] retryDelay_bounds(2) [OF assms(1,4,5)]
  have "retryDelay n rnd \<le> 2 ^ n * 3000 + 1000" "2 ^ (n + 1) * 3000 \<le> retryDelay (n + 1) rnd'"
    by simp_all
  moreover have "(1::real) \<le> 2 ^ n" by simp
  then have "(1000::real) \<le> 2 ^ n * 3000" by linarith
  moreover have "(2::real) ^ (n + 1) * 3000 = 2 ^ n * 3000 + 2 ^ n * 3000" by simp
  ultimately show ?thesis by linarith
qed

lemma example_delays:
  "retryDelay 0 (1 / 2) = 3500" "retryDelay (Suc 0) (1 / 2) = 6500" "retryDelay 2 (1 / 2) = 12500"
proof -
  have a: "double 500 = 500" by (rule double_fixed [of 8]) simp_all
  have "double 3000 = 3000" "double 3500 = 3500" by (rule double_fixed [of 11]; simp)+
  moreover have "double 6000 = 6000" "double 6500 = 6500" by (rule double_fixed [of 12]; simp)+
  moreover have "double 12000 = 12000" "double 12500 = 12500" by (rule double_fixed [of 13]; simp)+
  ultimately show "retryDelay 0 (1 / 2) = 3500" "retryDelay (Suc 0) (1 / 2) = 6500"
    "retryDelay 2 (1 / 2) = 12500"
    using a by (simp_all add: retryDelay_def)
qed

lemma step_retries: "retries_bounded s \<Longrightarrow> retries_bounded (step s ev)"
proof (cases ev)
  case (Lookup c r now)
  assume "retries_bounded s" with Lookup show ?thesis
    by (auto simp: retries_bounded_def getClassStatus_def)
next
  case (LoopWakes now lenv)
  assume i: "retries_bounded s"
  have "retries_bounded (dispatch now lenv s)"
    using i by (cases "scriptCallQueue s")
      (auto simp: dispatch_def retries_bounded_def start_fields)
  with i LoopWakes show ?thesis
    by (auto simp: processScriptQueue_def retries_bounded_def split: loop_pc.splits)
next
  case (ChildExits k fenv)
  assume i: "retries_bounded s"
  show ?thesis
  proof (cases "k < length (children s)")
    case True
    let ?c = "children s ! k"
    from True have m: "?c \<in> set (children s)" by simp
    with i have r: "retries (fst ?c) \<le> maxRetries" by (simp add: retries_bounded_def)
    have "retries_bounded (executeClassScript_finish fenv (fst ?c, snd ?c) s)"
    proof (cases "snd (executeClassScript_try fenv (snd ?c) s)")
      case (Inl err)
      show ?thesis
        using i finish_failure [OF Inl, of "fst ?c"] set_remove1_subset [of ?c "children s"]
        by (auto simp: retries_bounded_def finish_fields)
    next
      case (Inr v)
      show ?thesis
        using i finish_resolves [OF Inr, of "fst ?c"] set_remove1_subset [of ?c "children s"]
        by (auto simp: retries_bounded_def finish_fields)
    qed
    with True ChildExits show ?thesis by simp
  next
    case False
    with i ChildExits show ?thesis by simp
  qed
next
  case (TimerFires k now)
  assume i: "retries_bounded s"
  show ?thesis
  proof (cases "k < length (timers s)")
    case True
    then have "timers s ! k \<in> set (timers s)" by simp
    with i have "retries (snd (timers s ! k)) \<le> maxRetries" by (simp add: retries_bounded_def)
    with i True TimerFires show ?thesis
      by (auto simp: retries_bounded_def retry_timer_def dest: in_set_takeD in_set_dropD)
  next
    case False
    with i TimerFires show ?thesis by simp
  qed
next
  case Stop
  assume "retries_bounded s" with Stop show ?thesis
    by (simp add: retries_bounded_def)
qed

lemma foldl_step_retries: "retries_bounded s \<Longrightarrow> retries_bounded (foldl step s evs)"
  by (induction evs arbitrary: s) (simp_all add: step_retries)

lemma run_retries: "retries_bounded (run evs)"
  unfolding run_def by (rule foldl_step_retries) (simp add: retries_bounded_def started_def)

text \<open>
  C4. When \<^verbatim>\<open>execAsync\<close> rejects (timeout, failed process) or the output does not
  parse, and \<^verbatim>\<open>Math.random()\<close> is a double in \<open>[0, 1)\<close>: an entry with fewer than 3
  retries is not resolved; a timer is set whose callback, when it fires, pushes the
  entry on the queue with one retry more. The delay is the double sum of
  \<open>2 ^ retries * 3000\<close> and a jitter that is at least 0 and below 1000; it lies between
  \<open>2 ^ retries * 3000\<close> and \<open>2 ^ retries * 3000 + 1000\<close> and is at most the delay of
  the next retry. An entry with 3 retries is resolved with \<^verbatim>\<open>null\<close>, no timer is
  set and nothing is pushed. No entry of the queue ever has more than 3 retries.
\<close>

theorem retry_with_backoff:
  assumes "outcome fenv = Timeout \<or> outcome fenv = ProcessFailure \<or> outcome fenv = Stdout SyntaxError"
    and "0 \<le> random fenv" and "random fenv \<le> 1 - 1 / 2 ^ 53"
  shows "(retries e < 3 \<longrightarrow>
            timers (executeClassScript_finish fenv (e, dir) s) =
              timers s @ [(retryDelay (retries e) (random fenv), e\<lparr>retries := retries e + 1\<rparr>)] \<and>
            resolved (executeClassScript_finish fenv (e, dir) s) = resolved s \<and>
            scriptCallQueue (step (executeClassScript_finish fenv (e, dir) s)
                (TimerFires (length (timers s)) now)) =
              scriptCallQueue s @ [e\<lparr>retries := retries e + 1, timestamp := now\<rparr>] \<and>
            timers (step (executeClassScript_finish fenv (e, dir) s)
                (TimerFires (length (timers s)) now)) = timers s \<and>
            retryDelay (retries e) (random fenv) =
              double (2 ^ retries e * 3000 + double (random fenv * 1000)) \<and>
            0 \<le> double (random fenv * 1000) \<and> double (random fenv * 1000) < 1000 \<and>
            2 ^ retries e * 3000 \<le> retryDelay (retries e) (random fenv) \<and>
            retryDelay (retries e) (random fenv) \<le> 2 ^ retries e * 3000 + 1000 \<and>
            (\<forall>rnd'. 0 \<le> rnd' \<and> rnd' \<le> 1 - 1 / 2 ^ 53 \<and> retries e + 1 < 3 \<longrightarrow>
               retryDelay (retries e) (random fenv) \<le> retryDelay (retries e + 1) rnd')) \<and>
         (\<not> retries e < 3 \<longrightarrow>
            timers (executeClassScript_finish fenv (e, dir) s) = timers s \<and>
            scriptCallQueue (executeClassScript_finish fenv (e, dir) s) = scriptCallQueue s \<and>
            resolved (executeClassScript_finish fenv (e, dir) s) = resolved s @ [(resolve e, None)]) \<and>
         (\<forall>q \<in> set (scriptCallQueue (run evs)). retries q \<le> 3)"
proof -
  let ?s' = "executeClassScript_finish fenv (e, dir) s"
  obtain err where err: "snd (executeClassScript_try fenv dir s) = Inl err"
    using try_failure [OF assms(1)] by blast
  note f = finish_failure [OF err, of e] finish_fields(3) [of fenv "(e, dir)" s]
  have bound: "\<forall>q \<in> set (scriptCallQueue (run evs)). retries q \<le> 3"
    using run_retries [of evs] by (simp add: retries_bounded_def maxRetries_def)
  have retry: "retries e < 3 \<longrightarrow>
      timers ?s' = timers s @ [(retryDelay (retries e) (random fenv), e\<lparr>retries := retries e + 1\<rparr>)] \<and>
      resolved ?s' = resolved s \<and>
      scriptCallQueue (step ?s' (TimerFires (length (timers s)) now)) =
        scriptCallQueue s @ [e\<lparr>retries := retries e + 1, timestamp := now\<rparr>] \<and>
      timers (step ?s' (TimerFires (length (timers s)) now)) = timers s"
    using f by (simp add: maxRetries_def retry_timer_def)
  have delay: "retries e < 3 \<longrightarrow>
      retryDelay (retries e) (random fenv) =
        double (2 ^ retries e * 3000 + double (random fenv * 1000)) \<and>
      0 \<le> double (random fenv * 1000) \<and> double (random fenv * 1000) < 1000 \<and>
      2 ^ retries e * 3000 \<le> retryDelay (retries e) (random fenv) \<and>
      retryDelay (retries e) (random fenv) \<le> 2 ^ retries e * 3000 + 1000"
    using retryDelay_bounds [OF _ assms(2,3), of "retries e"] jitter_bounds [OF assms(2,3)]
    by simp
  have mono: "\<forall>rnd'. 0 \<le> rnd' \<and> rnd' \<le> 1 - 1 / 2 ^ 53 \<and> retries e + 1 < 3 \<longrightarrow>
      retryDelay (retries e) (random fenv) \<le> retryDelay (retries e + 1) rnd'"
    using retryDelay_mono [OF _ assms(2,3), of "retries e"] by simp
  have last: "\<not> retries e < 3 \<longrightarrow>
      timers ?s' = timers s \<and> scriptCallQueue ?s' = scriptCallQueue s \<and>
      resolved ?s' = resolved s @ [(resolve e, None)]"
    using f by (simp add: maxRetries_def)
  from retry delay mono last bound show ?thesis by blast
qed

theorem retry_with_backoff_witness:
  "outcome (example_finish Timeout) = Timeout \<and>
   0 \<le> random (example_finish Timeout) \<and> random (example_finish Timeout) \<le> 1 - 1 / 2 ^ 53 \<and>
   timers (executeClassScript_finish (example_finish Timeout) (example_entry 2, example_dir) started) =
     [(12500, example_entry 3)] \<and>
   resolved (executeClassScript_finish (example_finish Timeout) (example_entry 2, example_dir) started) = [] \<and>
   scriptCallQueue (step
       (executeClassScript_finish (example_finish Timeout) (example_entry 2, example_dir) started)
       (TimerFires 0 0)) = [example_entry 3] \<and>
   timers (step
       (executeClassScript_finish (example_finish Timeout) (example_entry 2, example_dir) started)
       (TimerFires 0 0)) = [] \<and>
   retryDelay 0 (1 / 2) \<le> retryDelay (Suc 0) (1 / 2) \<and>
   timers (executeClassScript_finish (example_finish Timeout) (example_entry 3, example_dir) started) = [] \<and>
   scriptCallQueue (executeClassScript_finish (example_finish Timeout) (example_entry 3, example_dir)
       started) = [] \<and>
   resolved (executeClassScript_finish (example_finish Timeout) (example_entry 3, example_dir) started) =
     [(0, None)] \<and>
   map retries (scriptCallQueue (run example_burst)) = [0, 0]"
proof -
  have h: "outcome (example_finish Timeout) = Timeout \<or> outcome (example_finish Timeout) = ProcessFailure \<or>
      outcome (example_finish Timeout) = Stdout SyntaxError"
    "0 \<le> random (example_finish Timeout)" "random (example_finish Timeout) \<le> 1 - 1 / 2 ^ 53"
    by (simp_all add: example_finish_def)
  have r: "retries (example_entry 2) < 3" "\<not> retries (example_entry 3) < 3"
    "(example_entry 2)\<lparr>retries := retries (example_entry 2) + 1\<rparr> = example_entry 3"
    "(example_entry 2)\<lparr>retries := retries (example_entry 2) + 1, timestamp := 0\<rparr> = example_entry 3"
    "retryDelay (retries (example_entry 2)) (random (example_finish Timeout)) = 12500"
    "resolve (example_entry 3) = 0"
    by (simp_all add: example_entry_def example_finish_def example_delays)
  have s: "timers started = []" "resolved started = []" "scriptCallQueue started = []"
    by (simp_all add: started_def)
  let ?s2 = "executeClassScript_finish (example_finish Timeout) (example_entry 2, example_dir) started"
  let ?s3 = "executeClassScript_finish (example_finish Timeout) (example_entry 3, example_dir) started"
  note a = retry_with_backoff [OF h, of "example_entry 2" example_dir started 0 example_burst]
  note b = retry_with_backoff [OF h, of "example_entry 3" example_dir started 0 example_burst]
  from a r(1) have
    "timers ?s2 = timers started @
       [(retryDelay (retries (example_entry 2)) (random (example_finish Timeout)),
         (example_entry 2)\<lparr>retries := retries (example_entry 2) + 1\<rparr>)]"
    "resolved ?s2 = resolved started"
    "scriptCallQueue (step ?s2 (TimerFires (length (timers started)) 0)) =
       scriptCallQueue started @
       [(example_entry 2)\<lparr>retries := retries (example_entry 2) + 1, timestamp := 0\<rparr>]"
    "timers (step ?s2 (TimerFires (length (timers started)) 0)) = timers started"
    by blast+
  moreover have "(example_entry 3)\<lparr>timestamp := 0\<rparr> = example_entry 3"
    by (simp add: example_entry_def)
  ultimately have a': "timers ?s2 = [(12500, example_entry 3)]" "resolved ?s2 = []"
    "scriptCallQueue (step ?s2 (TimerFires 0 0)) = [example_entry 3]"
    "timers (step ?s2 (TimerFires 0 0)) = []"
    by (simp_all only: r s append_Nil list.size)
  from b r(2) have
    "timers ?s3 = timers started" "scriptCallQueue ?s3 = scriptCallQueue started"
    "resolved ?s3 = resolved started @ [(resolve (example_entry 3), None)]"
    by blast+
  then have b': "timers ?s3 = []" "scriptCallQueue ?s3 = []" "resolved ?s3 = [(0, None)]"
    by (simp_all only: r s append_Nil)
  have d: "retryDelay 0 (1 / 2) \<le> retryDelay (Suc 0) (1 / 2)"
    by (simp add: example_delays)
  have q: "map retries (scriptCallQueue (run example_burst)) = [0, 0]"
    by (simp add: run_example_burst)
  from h a' b' d q show ?thesis
    by (simp add: example_finish_def)
qed

text \<open>The whole life of an entry whose child always times out: three retries,
  after 3500, 6500 and 12500 ms, then \<^verbatim>\<open>null\<close>, and nothing left to run.\<close>

lemma timeout_lifecycle:
  "map fst (timers (run (take 3 example_retries))) = [3500] \<and>
   map fst (timers (run (take 6 example_retries))) = [6500] \<and>
   map fst (timers (run (take 9 example_retries))) = [12500] \<and>
   resolved (run (take 9 example_retries)) = [] \<and>
   resolved (run example_retries) = [(0, None)] \<and>
   timers (run example_retries) = [] \<and>
   scriptCallQueue (run example_retries) = [] \<and>
   children (run example_retries) = []"
  by (simp add: example_retries_def run_def getClassStatus_def processScriptQueue_def dispatch_def
      started_def maxConcurrentScripts_def minScriptInterval_def maxRetries_def
      executeClassScript_start_def executeClassScript_finish_def executeClassScript_try_def
      retry_timer_def example_delays example_launch_def example_finish_def Let_def
      flip: numeral_2_eq_2)

lemma try_truthy_error:
  assumes "outcome fenv = Stdout (ParsedObject classData)"
  shows "snd (executeClassScript_try fenv dir s) =
           Inr (if truthy (error_field classData) then None else Some classData)"
  using assms by (simp add: executeClassScript_try_def Let_def)

text \<open>
  C5, amended. When the parsed output has a truthy \<^verbatim>\<open>error\<close> field (a non-empty
  string), the entry is resolved with \<^verbatim>\<open>null\<close> at once, no retry timer is set and
  nothing is pushed on the queue; and \<^verbatim>\<open>processNotification\<close>, its lookup resolved
  with \<^verbatim>\<open>null\<close>, returns \<^verbatim>\<open>null\<close> and leaves the store as it was.
\<close>

theorem truthy_error_resolves_null:
  assumes "outcome fenv = Stdout (ParsedObject classData)" and "truthy (error_field classData)"
  shows "resolved (executeClassScript_finish fenv (e, dir) s) = resolved s @ [(resolve e, None)] \<and>
         timers (executeClassScript_finish fenv (e, dir) s) = timers s \<and>
         scriptCallQueue (executeClassScript_finish fenv (e, dir) s) = scriptCallQueue s \<and>
         (lookup env = None \<longrightarrow> processNotification env db n = (db, [], Inr None))"
proof -
  have "snd (executeClassScript_try fenv dir s) = Inr None"
    using try_truthy_error [OF assms(1)] assms(2) by simp
  from finish_resolves [OF this, of e] show ?thesis
    by (simp add: finish_fields processNotification_skip)
qed

theorem truthy_error_resolves_null_witness:
  "outcome (example_finish (Stdout (ParsedObject not_found))) = Stdout (ParsedObject not_found) \<and>
   truthy (error_field not_found) \<and>
   resolved (executeClassScript_finish (example_finish (Stdout (ParsedObject not_found)))
      (example_entry 0, example_dir) started) = [(0, None)] \<and>
   timers (executeClassScript_finish (example_finish (Stdout (ParsedObject not_found)))
      (example_entry 0, example_dir) started) = [] \<and>
   lookup ((example_env [] 7 None)\<lparr>lookup := None\<rparr>) = None \<and>
   processNotification ((example_env [] 7 None)\<lparr>lookup := None\<rparr>) example_db
      (populate example_db example_record) = (example_db, [], Inr None)"
  using truthy_error_resolves_null [of "example_finish (Stdout (ParsedObject not_found))" not_found
      "example_entry 0" example_dir started "(example_env [] 7 None)\<lparr>lookup := None\<rparr>"
      example_db "populate example_db example_record"]
  by (simp add: example_finish_def not_found_def truthy_def example_entry_def started_def)

text \<open>
  C5 as stated fails for an \<^verbatim>\<open>error\<close> field that is present but falsy: on
  \<^verbatim>\<open>{"error": "", "seatStatus": "Open"}\<close> the test \<^verbatim>\<open>if (classData.error)\<close> takes
  the other branch, the entry is resolved with the object, and the tracking record's
  status goes from Closed to Open.
\<close>

theorem empty_error_field_counterexample:
  "error_field empty_error \<noteq> None \<and>
   resolved (executeClassScript_finish (example_finish (Stdout (ParsedObject empty_error)))
      (example_entry 0, example_dir) started) = [(0, Some empty_error)] \<and>
   map last_status (notification_coll (fst (processNotification
      ((example_env [] 7 None)\<lparr>lookup := Some empty_error\<rparr>) example_db
      (populate example_db example_record)))) = [''Open''] \<and>
   map last_status (notification_coll example_db) = [''Closed'']"
proof -
  have "snd (executeClassScript_try (example_finish (Stdout (ParsedObject empty_error))) example_dir started)
          = Inr (Some empty_error)"
    by (simp add: try_truthy_error [of _ empty_error] example_finish_def empty_error_def truthy_def)
  from finish_resolves [OF this, of "example_entry 0"]
  have "resolved (executeClassScript_finish (example_finish (Stdout (ParsedObject empty_error)))
      (example_entry 0, example_dir) started) = [(0, Some empty_error)]"
    by (simp add: started_def example_entry_def)
  moreover
  have "map last_status (notification_coll (fst (processNotification
      ((example_env [] 7 None)\<lparr>lookup := Some empty_error\<rparr>) example_db
      (populate example_db example_record)))) = [''Open'']"
    by (simp add: processNotification_def processNotification_try_def Let_def example_env_def
        empty_error_def populate_def example_db_def example_record_def findUserById_def
        findClassById_def update_notifications_def findByIdAndUpdate_def
        sendNotificationEmail_def)
  ultimately show ?thesis
    by (simp add: empty_error_def example_db_def example_record_def)
qed

section \<open>The scratch directory\<close>

lemma finish_tmp_dirs:
  "tmp_dirs (executeClassScript_finish fenv (e, dir) s) =
     (case outcome fenv of
        Stdout parsed \<Rightarrow> if rm_ok fenv then tmp_dirs s - {dir} else tmp_dirs s
      | _ \<Rightarrow> tmp_dirs s)"
  by (auto simp: executeClassScript_finish_def executeClassScript_try_def Let_def
      split: exec_outcome.splits json_parse.splits)

lemma start_tmp_dirs:
  "mkdir_ok lenv \<Longrightarrow> tempDir (uniqueId lenv) \<in> tmp_dirs (executeClassScript_start lenv e s)"
  by (simp add: executeClassScript_start_def)

text \<open>
  C8. The directory made for the child of class 12345 is still there after the
  child timed out or failed, and no child is left to use it: the
  \<^verbatim>\<open>rm -rf\<close> sits in the \<^verbatim>\<open>try\<close> block behind the \<^verbatim>\<open>await\<close>, which a rejection
  skips. After output that does not parse it is gone.
\<close>

theorem scratch_directory_left_after_timeout:
  "example_dir \<notin> tmp_dirs (run example_burst) \<and>
   example_dir \<in> tmp_dirs (run (example_burst @ [LoopWakes 5000 example_launch])) \<and>
   children (run (example_burst @ [LoopWakes 5000 example_launch])) = [(example_entry 0, example_dir)] \<and>
   example_dir \<in> tmp_dirs (run (example_burst @
      [LoopWakes 5000 example_launch, ChildExits 0 (example_finish Timeout)])) \<and>
   children (run (example_burst @
      [LoopWakes 5000 example_launch, ChildExits 0 (example_finish Timeout)])) = [] \<and>
   example_dir \<in> tmp_dirs (run (example_burst @
      [LoopWakes 5000 example_launch, ChildExits 0 (example_finish ProcessFailure)])) \<and>
   example_dir \<notin> tmp_dirs (run (example_burst @
      [LoopWakes 5000 example_launch, ChildExits 0 (example_finish (Stdout SyntaxError))]))"
proof -
  let ?w = "LoopWakes 5000 example_launch"
  have r: "run (example_burst @ [?w]) =
      started\<lparr>scriptCallQueue := [\<lparr>entry_classNumber = ''67890'', resolve = 1, retries = 0, timestamp = 0\<rparr>],
        currentScriptCount := 1, lastScriptStartTime := 5000,
        children := [(example_entry 0, example_dir)], tmp_dirs := {example_dir}\<rparr>"
    unfolding run_snoc run_example_burst
    by (simp add: processScriptQueue_def dispatch_def started_def maxConcurrentScripts_def
        minScriptInterval_def executeClassScript_start_def example_launch_def example_dir_def
        example_entry_def)
  have e: "\<And>out. run (example_burst @ [?w, ChildExits 0 (example_finish out)]) =
      executeClassScript_finish (example_finish out) (example_entry 0, example_dir)
        (run (example_burst @ [?w]))"
    using run_snoc [of "example_burst @ [?w]"] by (simp add: r)
  show ?thesis
    unfolding e finish_fields finish_tmp_dirs
    by (simp add: r run_example_burst started_def example_finish_def)
qed

section \<open>One active record for each pair\<close>

lemma findOne_None: "findOne P ds = None \<Longrightarrow> d \<in> set ds \<Longrightarrow> \<not> P d"
  by (induction ds) (auto split: if_splits)

lemma update_frame:
  assumes "\<And>d. g (f d) = g d"
  shows "map g (findOneAndUpdate P f ds) = map g ds"
  using assms by (induction ds) auto

lemma active_pairs_frame:
  "map (\<lambda>d. (user_id d, class_id d)) (filter is_active ds) =
     map fst (filter snd (map (\<lambda>d. ((user_id d, class_id d), is_active d)) ds))"
  by (induction ds) auto

lemma update_keeps_invariant:
  assumes "\<And>d. user_id (f d) = user_id d" "\<And>d. class_id (f d) = class_id d"
    "\<And>d. is_active (f d) = is_active d"
  shows "one_active_per_pair (findOneAndUpdate P f ds) = one_active_per_pair ds"
  unfolding one_active_per_pair_def active_pairs_frame
  using update_frame [of "\<lambda>d. ((user_id d, class_id d), is_active d)" f P ds] assms by simp

lemma processNotification_keeps_invariant:
  "one_active_per_pair (notification_coll (fst (processNotification env db n))) =
     one_active_per_pair (notification_coll db)"
  by (auto simp: processNotification_def processNotification_try_def Let_def
      update_notifications_def findByIdAndUpdate_def update_keeps_invariant
      split: option.splits prod.splits sum.splits)

lemma deactivate_subset:
  "set (filter is_active (findOneAndUpdate P (\<lambda>d. d\<lparr>is_active := False\<rparr>) ds)) \<subseteq> set (filter is_active ds)"
  by (induction ds) auto

lemma deactivate_keeps_invariant:
  "one_active_per_pair ds \<Longrightarrow>
     one_active_per_pair (findOneAndUpdate P (\<lambda>d. d\<lparr>is_active := False\<rparr>) ds)"
proof (induction ds)
  case Nil
  then show ?case by (simp add: one_active_per_pair_def)
next
  case (Cons d ds)
  show ?case
  proof (cases "P d")
    case True
    with Cons.prems show ?thesis by (auto simp: one_active_per_pair_def split: if_splits)
  next
    case False
    from Cons have "one_active_per_pair (findOneAndUpdate P (\<lambda>d. d\<lparr>is_active := False\<rparr>) ds)"
      by (auto simp: one_active_per_pair_def split: if_splits)
    with False Cons.prems deactivate_subset [of P ds] show ?thesis
      by (auto simp: one_active_per_pair_def split: if_splits)
  qed
qed

lemma handleClassRemoved_keeps_invariant:
  "one_active_per_pair (notification_coll db) \<Longrightarrow>
     one_active_per_pair (notification_coll (fst (handleClassRemoved env db userId classId)))"
  by (auto simp: handleClassRemoved_def handleClassRemoved_try_def update_notifications_def
      deactivate_keeps_invariant)

lemma create_keeps_invariant:
  assumes "one_active_per_pair ds"
    and "\<forall>d \<in> set ds. is_active d \<longrightarrow> \<not> (user_id d = u \<and> class_id d = c)"
  shows "one_active_per_pair (create now u c n ds)"
  using assms by (auto simp: one_active_per_pair_def create_def)

lemma backfill_keeps_invariant:
  "one_active_per_pair ds \<Longrightarrow> one_active_per_pair (fst (backfill ok now us cs ds))"
proof (induction cs arbitrary: ds)
  case Nil
  then show ?case by simp
next
  case (Cons classItem rest)
  show ?case
  proof (cases "findUserById (class_user_id classItem) us")
    case None
    with Cons show ?thesis by simp
  next
    case (Some user)
    show ?thesis
    proof (cases "findOne (\<lambda>d. user_id d = user_oid user \<and> class_id d = class_oid classItem) ds")
      case None
      then have "\<forall>d \<in> set ds. is_active d \<longrightarrow>
          \<not> (user_id d = user_oid user \<and> class_id d = class_oid classItem)"
        by (auto dest: findOne_None)
      with Cons.prems have "one_active_per_pair
          (create now (user_oid user) (class_oid classItem) (number classItem) ds)"
        by (rule create_keeps_invariant)
      with Cons Some None show ?thesis by simp
    next
      case existing: (Some d)
      with Cons Some show ?thesis by simp
    qed
  qed
qed

lemma initializeNotificationTracking_keeps_invariant:
  "one_active_per_pair (notification_coll db) \<Longrightarrow>
     one_active_per_pair (notification_coll (fst (initializeNotificationTracking c ok now db)))"
  using backfill_keeps_invariant [of "notification_coll db" ok now "user_coll db" "class_coll db"]
  by (simp add: initializeNotificationTracking_def split_def)

lemma handleClassAdded_keeps_invariant_when_untracked:
  assumes "one_active_per_pair (notification_coll db)"
    and "\<forall>d \<in> set (notification_coll db). is_active d \<longrightarrow> \<not> (user_id d = userId \<and> class_id d = classId)"
  shows "one_active_per_pair (notification_coll (fst (handleClassAdded env db userId classId)))"
  using assms
  by (auto simp: handleClassAdded_def handleClassAdded_try_def update_notifications_def
      create_keeps_invariant split: option.splits)

text \<open>
  C6. \<^verbatim>\<open>handleClassAdded\<close> creates a tracking record without asking whether the
  pair has one, as the backfill does: called for user 1 and class 2 on a store that
  tracks the pair already, it leaves two active records for it. The lemmas above
  show the invariant kept by the polling update, the removal and the backfill, and
  by \<^verbatim>\<open>handleClassAdded\<close> for a pair without an active record.
\<close>

theorem handleClassAdded_duplicates_tracking:
  "one_active_per_pair (notification_coll example_db) \<and>
   \<not> one_active_per_pair (notification_coll (fst (handleClassAdded
        \<lparr>models_available = True, read_ok = True, write_ok = True, created_at = 5\<rparr>
        example_db 1 2))) \<and>
   map (\<lambda>d. (user_id d, class_id d, is_active d)) (notification_coll (fst (handleClassAdded
        \<lparr>models_available = True, read_ok = True, write_ok = True, created_at = 5\<rparr>
        example_db 1 2))) = [(1, 2, True), (1, 2, True)]"
  by (simp add: handleClassAdded_def handleClassAdded_try_def update_notifications_def
      example_db_def example_record_def findClassById_def create_def one_active_per_pair_def)

section \<open>The polling cycle\<close>

lemma totalBatches_div: "totalBatches n = (n + 4) div 5"
proof -
  have "\<lceil>real n / real batchSize\<rceil> = - (- int n div 5)"
    using ceiling_divide_eq_div [of "int n" 5] by (simp add: batchSize_def)
  moreover have "- (- int n div 5) = int ((n + 4) div 5)"
    by (simp add: zdiv_int)
  ultimately show ?thesis unfolding totalBatches_def by simp
qed

lemma concat_batches:
  "concat (map (\<lambda>b. take k (drop (b * k) xs)) [0 ..< m]) = take (m * k) xs"
proof (induction m)
  case 0
  then show ?case by simp
next
  case (Suc m)
  have "take (m * k) xs @ take k (drop (m * k) xs) = take (m * k + k) xs"
    by (simp add: take_add)
  with Suc show ?case by (simp add: add.commute)
qed

text \<open>A call changes the store by one update of its own document.\<close>

lemma update_twice:
  assumes "\<And>d. P d \<Longrightarrow> P (f d)"
  shows "findOneAndUpdate P g (findOneAndUpdate P f ds) = findOneAndUpdate P (\<lambda>d. g (f d)) ds"
  using assms by (induction ds) auto

lemma update_nothing: "findOneAndUpdate P (\<lambda>d. d) ds = ds"
  by (induction ds) auto

lemma written_cases:
  "pop_user n = None \<or> pop_class n = None \<or> lookup env = None \<or> \<not> status_write env \<Longrightarrow>
     written env n = (\<lambda>d. d)"
  "pop_user n \<noteq> None \<Longrightarrow> pop_class n \<noteq> None \<Longrightarrow> lookup env = Some cs \<Longrightarrow> status_write env \<Longrightarrow>
     last_status (doc n) = ''Closed'' \<and> seatStatus cs = ''Open'' \<and> sent_write env \<Longrightarrow>
     written env n = (\<lambda>d. d\<lparr>last_checked := checked_at env, last_status := seatStatus cs,
        notification_sent := Some (sent_at env), notification_count := notification_count (doc n) + 1\<rparr>)"
  "pop_user n \<noteq> None \<Longrightarrow> pop_class n \<noteq> None \<Longrightarrow> lookup env = Some cs \<Longrightarrow> status_write env \<Longrightarrow>
     \<not> (last_status (doc n) = ''Closed'' \<and> seatStatus cs = ''Open'' \<and> sent_write env) \<Longrightarrow>
     written env n = (\<lambda>d. d\<lparr>last_checked := checked_at env, last_status := seatStatus cs\<rparr>)"
  by (auto simp: written_def fun_eq_iff split: option.splits)

lemma processNotification_written:
  "notification_coll (fst (processNotification env db n)) =
     findByIdAndUpdate (notification_oid (doc n)) (written env n) (notification_coll db)"
proof (cases "pop_user n = None \<or> pop_class n = None \<or> lookup env = None \<or> \<not> status_write env")
  case True
  then have "processNotification env db n = (db, [], Inr None)"
    by (auto simp: processNotification_def processNotification_try_def split: option.splits)
  then show ?thesis
    by (simp add: written_cases(1) [OF True] findByIdAndUpdate_def update_nothing)
next
  case False
  then obtain cs where v: "pop_user n \<noteq> None" "pop_class n \<noteq> None" "lookup env = Some cs"
      "status_write env"
    by auto
  obtain effs where e: "sendNotificationEmail (emailTransporter env) n cs = (effs, Inr ())"
    by (rule sendNotificationEmail_cases)
  show ?thesis
  proof (cases "last_status (doc n) = ''Closed'' \<and> seatStatus cs = ''Open'' \<and> sent_write env")
    case True
    with v e show ?thesis
      by (auto simp: written_cases(2) [OF v True] processNotification_def processNotification_try_def
          Let_def update_notifications_def findByIdAndUpdate_def update_twice)
  next
    case False
    with v e show ?thesis
      by (auto simp: written_cases(3) [OF v False] processNotification_def processNotification_try_def
          Let_def update_notifications_def findByIdAndUpdate_def)
  qed
qed

lemma processNotification_outcome:
  "snd (processNotification env db n) = snd (processNotification env db' n)"
  by (auto simp: processNotification_def processNotification_try_def Let_def
      split: option.splits prod.splits sum.splits)

lemma written_frame: "frame (written env n x) = frame x"
  by (auto simp: written_def frame_def split: option.splits)

lemma written_oid: "notification_oid (written env n x) = notification_oid x"
  using written_frame [of env n x] by (simp add: frame_def)

lemma written_active: "is_active (written env n x) = is_active x"
  using written_frame [of env n x] by (simp add: frame_def)

lemma update_distinct:
  assumes "distinct (map notification_oid ds)"
  shows "findByIdAndUpdate i f ds = map (\<lambda>x. if notification_oid x = i then f x else x) ds"
  using assms unfolding findByIdAndUpdate_def
proof (induction ds)
  case Nil
  then show ?case by simp
next
  case (Cons d ds)
  show ?case
  proof (cases "notification_oid d = i")
    case True
    from Cons.prems have "notification_oid d \<notin> notification_oid ` set ds" by simp
    with True have "\<forall>x \<in> set ds. notification_oid x \<noteq> i" by blast
    then have "map (\<lambda>x. if notification_oid x = i then f x else x) ds = ds"
      by (intro map_idI) simp
    with True show ?thesis by simp
  next
    case False
    with Cons show ?thesis by simp
  qed
qed

lemma find_distinct:
  assumes "distinct (map notification_oid ds)" "d \<in> set ds"
  shows "findNotificationById (notification_oid d) ds = Some d"
  using assms unfolding findNotificationById_def
proof (induction ds)
  case Nil
  then show ?case by simp
next
  case (Cons x ds)
  from Cons.prems have "notification_oid x \<notin> notification_oid ` set ds" by simp
  with Cons show ?case by auto
qed

lemma find_map:
  assumes "\<And>x. notification_oid (f x) = notification_oid x"
  shows "findNotificationById i (map f ds) = map_option f (findNotificationById i ds)"
  using assms unfolding findNotificationById_def by (induction ds) auto

lemma oid_inj:
  assumes "distinct (map notification_oid ds)" "x \<in> set ds" "y \<in> set ds"
    "notification_oid x = notification_oid y"
  shows "x = y"
  using assms by (meson distinct_map inj_onD)

lemma notin_image: "f a \<notin> f ` A \<Longrightarrow> m \<in> A \<Longrightarrow> f m \<noteq> f a"
  by (metis imageI)

lemma distinct_Cons_fresh: "distinct (map f (a # xs)) \<Longrightarrow> \<forall>m \<in> set xs. f m \<noteq> f a"
  by (auto dest: notin_image)

lemma settle_phase_written:
  assumes "distinct (map notification_oid (notification_coll db))"
    and "distinct (map (\<lambda>n. notification_oid (doc n)) ns)"
  shows "notification_coll (fst (settle_phase envs db ns)) =
           map (\<lambda>x. case List.find (\<lambda>n. notification_oid (doc n) = notification_oid x) ns of
                      None \<Rightarrow> x
                    | Some n \<Rightarrow> written (envs (notification_oid x)) n x) (notification_coll db) \<and>
         user_coll (fst (settle_phase envs db ns)) = user_coll db \<and>
         class_coll (fst (settle_phase envs db ns)) = class_coll db \<and>
         snd (settle_phase envs db ns) =
           map (\<lambda>n. Settled (notification_oid (doc n))
                      (fst (snd (processNotification (envs (notification_oid (doc n))) db0 n)))
                      (snd (snd (processNotification (envs (notification_oid (doc n))) db0 n)))) ns"
  using assms
proof (induction ns arbitrary: db)
  case Nil
  then show ?case by (simp add: map_idI)
next
  case (Cons n ns)
  let ?i = "notification_oid (doc n)"
  let ?p = "processNotification (envs ?i) db n"
  let ?db1 = "fst ?p"
  let ?upd = "\<lambda>x. if notification_oid x = ?i then written (envs ?i) n x else x"
  let ?W = "\<lambda>ns x. case List.find (\<lambda>n. notification_oid (doc n) = notification_oid x) ns of
                      None \<Rightarrow> x
                    | Some n \<Rightarrow> written (envs (notification_oid x)) n x"
  have c1: "notification_coll ?db1 = map ?upd (notification_coll db)"
    using processNotification_written [of "envs ?i" db n] update_distinct [OF Cons.prems(1)]
    by simp
  have "notification_oid (?upd x) = notification_oid x" for x
    by (simp add: written_oid)
  then have "map notification_oid (map ?upd (notification_coll db)) =
      map notification_oid (notification_coll db)"
    by (simp only: map_map comp_def)
  then have d1: "distinct (map notification_oid (notification_coll ?db1))"
    using Cons.prems(1) by (simp only: c1)
  have d2: "distinct (map (\<lambda>n. notification_oid (doc n)) ns)"
    using Cons.prems(2) by simp
  have fresh: "\<forall>m \<in> set ns. notification_oid (doc m) \<noteq> ?i"
    using distinct_Cons_fresh [OF Cons.prems(2)] by simp
  note ih = Cons.IH [OF d1 d2]
  have w: "?W ns (?upd x) = ?W (n # ns) x" for x
  proof (cases "notification_oid x = ?i")
    case True
    have "List.find (\<lambda>m. notification_oid (doc m) = ?i) ns = None"
      using fresh by (simp add: find_None_iff)
    with True show ?thesis by (simp add: written_oid)
  next
    case False
    then have "?i \<noteq> notification_oid x" by simp
    with False show ?thesis by simp
  qed
  have o: "snd ?p = snd (processNotification (envs ?i) db0 n)"
    by (rule processNotification_outcome)
  show ?case
    using ih processNotification_colls [of "envs ?i" db n] o
    by (simp add: split_def c1 w comp_def)
qed

lemma find_populated:
  "List.find (\<lambda>n. notification_oid (doc n) = i) (map (populate db) ds) =
     map_option (populate db) (List.find (\<lambda>d. notification_oid d = i) ds)"
  by (induction ds) (simp_all add: populate_simps)

lemma dispatch_phase_populated:
  "dispatch_phase (map (populate db) ds) =
     map (\<lambda>d. Requested (class_number d)) (filter (tracked db) ds)"
  by (induction ds) (simp_all add: dispatch_phase_def populate_simps tracked_def)

lemma take_drop_disjoint:
  assumes "distinct (map f xs)" "x \<in> set (take k (drop j xs))"
  shows "f x \<notin> f ` set (take j xs)"
proof
  assume "f x \<in> f ` set (take j xs)"
  then have a: "f x \<in> set (take j (map f xs))" by (simp add: take_map)
  from assms(2) have "x \<in> set (drop j xs)" by (rule in_set_takeD)
  then have b: "f x \<in> set (drop j (map f xs))" by (simp add: drop_map)
  have "distinct (take j (map f xs) @ drop j (map f xs))" using assms(1) by simp
  with a b show False by (simp only: distinct_append) blast
qed

lemma run_batches_from:
  assumes ok: "\<forall>b. find_ok env b" "\<forall>b. still_running env b"
    and D: "distinct (map notification_oid (notification_coll db0))"
    and A: "A = filter is_active (notification_coll db0)"
    and B: "\<And>b. B b = take batchSize (drop (b * batchSize) A)"
    and V: "\<And>b x. V b x =
        (if notification_oid x \<in> notification_oid ` set (take (b * batchSize) A)
         then written (pn_envs env (notification_oid x)) (populate db0 x) x else x)"
    and R: "\<And>b. R b =
        \<lparr>found = map notification_oid (B b),
         events = map (\<lambda>d. Requested (class_number d)) (filter (tracked db0) (B b)) @
                  map (\<lambda>d. Settled (notification_oid d) (fst (snd (alone env db0 d)))
                         (snd (snd (alone env db0 d)))) (B b) @
                  [Slept 1000]\<rparr>"
    and I: "user_coll dbt = user_coll db0" "class_coll dbt = class_coll db0"
      "notification_coll dbt = map (V b) (notification_coll db0)"
    and le: "b \<le> m"
  shows "\<exists>dbf. run_batches env [b ..< m] dbt = (dbf, map R [b ..< m], None) \<and>
           user_coll dbf = user_coll db0 \<and> class_coll dbf = class_coll db0 \<and>
           notification_coll dbf = map (V m) (notification_coll db0)"
  using I le
proof (induction "m - b" arbitrary: b dbt)
  case 0
  then show ?case by simp
next
  case (Suc k)
  then have lt: "b < m" by simp
  let ?coll0 = "notification_coll db0"
  have Void: "notification_oid (V c x) = notification_oid x" for c x
    by (simp add: V written_oid)
  have Vact: "is_active (V c x) = is_active x" for c x
    by (simp add: V written_active)
  have DA: "distinct (map notification_oid A)"
    unfolding A using D by (rule distinct_map_filter)
  have sub: "set (B b) \<subseteq> set ?coll0"
    unfolding B A by (meson in_set_dropD in_set_takeD filter_is_subset subsetD subsetI)
  have fixB: "V b x = x" if "x \<in> set (B b)" for x
    using take_drop_disjoint [OF DA, of x batchSize "b * batchSize"] that
    by (simp add: V B)
  text \<open>The batch is read as the cycle found it.\<close>
  have "filter is_active (notification_coll dbt) = map (V b) A"
    by (simp add: Suc.prems(3) A filter_map comp_def Vact)
  then have "take batchSize (drop (b * batchSize) (filter is_active (notification_coll dbt))) =
      map (V b) (B b)"
    by (simp add: B take_map drop_map)
  also have "\<dots> = B b" using fixB by (intro map_idI) simp
  finally have docs: "take batchSize (drop (b * batchSize) (filter is_active (notification_coll dbt))) = B b" .
  have pop: "populate dbt = populate db0"
    by (simp add: fun_eq_iff populate_def Suc.prems(1,2))
  have ns: "find_batch dbt b = map (populate db0) (B b)"
    by (simp add: find_batch_def docs pop)
  text \<open>Its calls settle as each would alone.\<close>
  have d1: "distinct (map notification_oid (notification_coll dbt))"
    using D by (simp add: Suc.prems(3) comp_def Void)
  have dB: "distinct (map notification_oid (B b))"
    unfolding B using DA by (simp add: distinct_take distinct_drop flip: take_map drop_map)
  have d2: "distinct (map (\<lambda>n. notification_oid (doc n)) (map (populate db0) (B b)))"
    using dB by (simp add: comp_def populate_simps)
  note sp = settle_phase_written [OF d1 d2, of "pn_envs env" db0]
  let ?db1 = "fst (settle_phase (pn_envs env) dbt (map (populate db0) (B b)))"
  have ev: "snd (settle_phase (pn_envs env) dbt (map (populate db0) (B b))) =
      map (\<lambda>d. Settled (notification_oid d) (fst (snd (alone env db0 d)))
             (snd (snd (alone env db0 d)))) (B b)"
    using sp by (simp add: comp_def populate_simps alone_def)
  have step: "(case List.find (\<lambda>n. notification_oid (doc n) = notification_oid (V b x))
                  (map (populate db0) (B b)) of
                None \<Rightarrow> V b x
              | Some n \<Rightarrow> written (pn_envs env (notification_oid (V b x))) n (V b x)) = V (Suc b) x"
    if x: "x \<in> set ?coll0" for x
  proof -
    have "Suc b * batchSize = b * batchSize + batchSize" by simp
    then have tk: "take (Suc b * batchSize) A = take (b * batchSize) A @ B b"
      by (simp only: B take_add)
    have VS: "V (Suc b) x =
        (if notification_oid x \<in> notification_oid ` set (take (b * batchSize) A) \<or>
            notification_oid x \<in> notification_oid ` set (B b)
         then written (pn_envs env (notification_oid x)) (populate db0 x) x else x)"
      by (simp only: V tk set_append image_Un Un_iff)
    have lhs: "(case List.find (\<lambda>n. notification_oid (doc n) = notification_oid (V b x))
                  (map (populate db0) (B b)) of
                None \<Rightarrow> V b x
              | Some n \<Rightarrow> written (pn_envs env (notification_oid (V b x))) n (V b x)) =
        (case List.find (\<lambda>d. notification_oid d = notification_oid x) (B b) of
           None \<Rightarrow> V b x
         | Some d \<Rightarrow> written (pn_envs env (notification_oid x)) (populate db0 d) (V b x))"
      by (simp only: Void find_populated option.case_eq_if option.map_sel option.map_disc_iff)
        (simp add: option.map_sel)
    show ?thesis
    proof (cases "x \<in> set (B b)")
      case True
      then obtain d where d: "List.find (\<lambda>d. notification_oid d = notification_oid x) (B b) = Some d"
        by (cases "List.find (\<lambda>d. notification_oid d = notification_oid x) (B b)")
          (auto simp: find_None_iff)
      then have "notification_oid d = notification_oid x" "d \<in> set (B b)"
        by (auto simp: find_Some_iff)
      with sub x have "d = x" using oid_inj [OF D, of d x] by auto
      with d have "List.find (\<lambda>d. notification_oid d = notification_oid x) (B b) = Some x"
        by simp
      moreover have "V b x = x" using True by (rule fixB)
      moreover have "V (Suc b) x = written (pn_envs env (notification_oid x)) (populate db0 x) x"
        using True by (simp add: VS)
      ultimately show ?thesis unfolding lhs by simp
    next
      case False
      have no: "\<forall>d \<in> set (B b). notification_oid d \<noteq> notification_oid x"
      proof
        fix d assume "d \<in> set (B b)"
        with sub x False show "notification_oid d \<noteq> notification_oid x"
          using oid_inj [OF D, of d x] by auto
      qed
      then have "List.find (\<lambda>d. notification_oid d = notification_oid x) (B b) = None"
        by (simp add: find_None_iff)
      moreover have "notification_oid x \<notin> notification_oid ` set (B b)"
        using no by (metis imageE)
      then have "V (Suc b) x = V b x"
        by (simp add: VS V [of b])
      ultimately show ?thesis unfolding lhs by simp
    qed
  qed
  have c1: "notification_coll ?db1 = map (V (Suc b)) ?coll0"
    using sp step by (simp add: Suc.prems(3) comp_def)
  have u1: "user_coll ?db1 = user_coll db0" "class_coll ?db1 = class_coll db0"
    using sp Suc.prems(1,2) by simp_all
  have "Suc k = m - b" by fact
  then have k: "k = m - Suc b" by simp
  from lt have le': "Suc b \<le> m" by simp
  obtain dbf where f: "run_batches env [Suc b ..< m] ?db1 = (dbf, map R [Suc b ..< m], None)"
      "user_coll dbf = user_coll db0" "class_coll dbf = class_coll db0"
      "notification_coll dbf = map (V m) ?coll0"
    using Suc.hyps(1) [OF k u1 c1 le'] by blast
  have "run_batches env [b ..< m] dbt = (dbf, map R [b ..< m], None)"
    using lt ok f(1) ev
    by (simp add: upt_conv_Cons ns split_def Let_def R dispatch_phase_populated populate_simps
        comp_def)
  with f show ?case by blast
qed

text \<open>
  C7. In a cycle of a running service in which \<^verbatim>\<open>countDocuments\<close> and every
  \<^verbatim>\<open>find\<close> resolve, over a store with distinct \<^verbatim>\<open>_id\<close>s and \<open>N\<close> active tracking
  records: there are \<open>\<lceil>N / 5\<rceil>\<close> batches, one after the other; batch \<open>b\<close> holds the
  records \<open>5 b, \<dots>, 5 b + 4\<close> of the active ones, at most 5. Its events are, in this
  order: the lookup requests of all its records whose user and class exist; then
  one settled call for each of its records, with the effects and the outcome that
  the call has when it is the only one made; then a sleep of 1000 ms. The batches
  together are the active records in order. After the cycle every active record is
  stored as its own call alone leaves it and every other record is unchanged; so a
  record whose own lookup resolved and whose status write the store took has the new
  status, whatever the lookups of the others did. For \<open>N = 12\<close> the sizes are 5, 5, 2.
\<close>

theorem batches_of_a_cycle:
  assumes "isRunning s" and "count_ok env" and "\<forall>b. find_ok env b" and "\<forall>b. still_running env b"
    and "distinct (map notification_oid (notification_coll db))"
  shows "case monitorClasses env s db of
           (s', db', reports) \<Rightarrow>
             int (length reports) = \<lceil>real (length (filter is_active (notification_coll db))) / 5\<rceil> \<and>
             (\<forall>b < length reports.
                found (reports ! b) =
                  map notification_oid
                    (take 5 (drop (b * 5) (filter is_active (notification_coll db)))) \<and>
                length (found (reports ! b)) \<le> 5 \<and>
                events (reports ! b) =
                  map (\<lambda>d. Requested (class_number d))
                    (filter (tracked db)
                       (take 5 (drop (b * 5) (filter is_active (notification_coll db))))) @
                  map (\<lambda>d. Settled (notification_oid d) (fst (snd (alone env db d)))
                         (snd (snd (alone env db d))))
                    (take 5 (drop (b * 5) (filter is_active (notification_coll db)))) @
                  [Slept 1000]) \<and>
             concat (map found reports) =
               map notification_oid (filter is_active (notification_coll db)) \<and>
             (\<forall>d \<in> set (notification_coll db).
                findNotificationById (notification_oid d) (notification_coll db') =
                  (if is_active d
                   then findNotificationById (notification_oid d)
                          (notification_coll (fst (alone env db d)))
                   else Some d)) \<and>
             (\<forall>d \<in> set (notification_coll db). \<forall>cs.
                is_active d \<and> tracked db d \<and>
                lookup (pn_envs env (notification_oid d)) = Some cs \<and>
                status_write (pn_envs env (notification_oid d)) \<longrightarrow>
                map_option last_status
                  (findNotificationById (notification_oid d) (notification_coll db')) =
                  Some (seatStatus cs)) \<and>
             (length (filter is_active (notification_coll db)) = 12 \<longrightarrow>
                map (\<lambda>r. length (found r)) reports = [5, 5, 2])"
proof -
  let ?coll = "notification_coll db"
  let ?A = "filter is_active ?coll"
  let ?N = "length ?A"
  let ?m = "totalBatches ?N"
  let ?B = "\<lambda>b. take batchSize (drop (b * batchSize) ?A)"
  let ?V = "\<lambda>b x. if notification_oid x \<in> notification_oid ` set (take (b * batchSize) ?A)
         then written (pn_envs env (notification_oid x)) (populate db x) x else x"
  let ?R = "\<lambda>b. \<lparr>found = map notification_oid (?B b),
         events = map (\<lambda>d. Requested (class_number d)) (filter (tracked db) (?B b)) @
                  map (\<lambda>d. Settled (notification_oid d) (fst (snd (alone env db d)))
                         (snd (snd (alone env db d)))) (?B b) @
                  [Slept 1000]\<rparr>"
  note D = assms(5)
  have ceil: "int ?m = \<lceil>real ?N / 5\<rceil>"
    unfolding totalBatches_def batchSize_def
    by (simp add: ceiling_le_iff[symmetric] nat_eq_iff)
  text \<open>What the cycle returns.\<close>
  have "\<exists>db'. snd (monitorClasses env s db) = (db', map ?R [0 ..< ?m]) \<and>
      notification_coll db' = map (?V ?m) ?coll"
  proof (cases "?N = 0")
    case True
    then have "?A = []" by simp
    then have "map (?V ?m) ?coll = ?coll" by (intro map_idI) simp
    with True assms(1,2) show ?thesis
      by (simp add: monitorClasses_def Let_def totalBatches_div)
  next
    case False
    have "?coll = map (?V 0) ?coll" by (intro map_idI [symmetric]) simp
    from run_batches_from [OF assms(3,4) D refl refl refl refl refl refl this, of ?m]
    obtain dbf where f: "run_batches env [0 ..< ?m] db = (dbf, map ?R [0 ..< ?m], None)"
        "notification_coll dbf = map (?V ?m) ?coll"
      by auto
    with False assms(1,2) show ?thesis
      by (simp add: monitorClasses_def Let_def)
  qed
  then obtain db' where mc: "snd (monitorClasses env s db) = (db', map ?R [0 ..< ?m])"
    and coll': "notification_coll db' = map (?V ?m) ?coll"
    by blast
  let ?reports = "map ?R [0 ..< ?m]"
  have len: "length ?reports = ?m" by simp
  have each: "\<forall>b < length ?reports.
      found (?reports ! b) = map notification_oid (take 5 (drop (b * 5) ?A)) \<and>
      length (found (?reports ! b)) \<le> 5 \<and>
      events (?reports ! b) =
        map (\<lambda>d. Requested (class_number d)) (filter (tracked db) (take 5 (drop (b * 5) ?A))) @
        map (\<lambda>d. Settled (notification_oid d) (fst (snd (alone env db d)))
               (snd (snd (alone env db d)))) (take 5 (drop (b * 5) ?A)) @
        [Slept 1000]"
    by (simp add: batchSize_def)
  have "concat (map found ?reports) = map notification_oid (concat (map ?B [0 ..< ?m]))"
    by (simp add: comp_def map_concat)
  also have "concat (map ?B [0 ..< ?m]) = take (?m * batchSize) ?A"
    by (rule concat_batches)
  also have all: "take (?m * batchSize) ?A = ?A"
    by (simp add: totalBatches_div batchSize_def)
  finally have cc: "concat (map found ?reports) = map notification_oid ?A" .
  text \<open>Every record ends as its own call leaves it.\<close>
  have Void: "notification_oid (?V ?m x) = notification_oid x" for x
    by (simp add: written_oid)
  have final: "findNotificationById (notification_oid d) (notification_coll db') =
      (if is_active d
       then findNotificationById (notification_oid d) (notification_coll (fst (alone env db d)))
       else Some d)" if d: "d \<in> set ?coll" for d
  proof -
    have here: "findNotificationById (notification_oid d) ?coll = Some d"
      using D d by (rule find_distinct)
    have "findNotificationById (notification_oid d) (map (?V ?m) ?coll) =
        map_option (?V ?m) (findNotificationById (notification_oid d) ?coll)"
      using Void by (intro find_map) simp
    then have 1: "findNotificationById (notification_oid d) (notification_coll db') = Some (?V ?m d)"
      by (simp only: coll' here option.map)
    have 2: "notification_oid d \<in> notification_oid ` set ?A \<longleftrightarrow> is_active d"
    proof
      assume "notification_oid d \<in> notification_oid ` set ?A"
      then obtain y where y: "y \<in> set ?coll" "is_active y" "notification_oid y = notification_oid d"
        by auto
      with d have "y = d" using oid_inj [OF D, of y d] by simp
      with y show "is_active d" by simp
    next
      assume "is_active d" with d show "notification_oid d \<in> notification_oid ` set ?A" by simp
    qed
    have 3: "findNotificationById (notification_oid d) (notification_coll (fst (alone env db d))) =
        Some (written (pn_envs env (notification_oid d)) (populate db d) d)"
      by (simp add: alone_def processNotification_written populate_simps find_after_update
          written_oid here)
    show ?thesis
      unfolding 1 3 using 2 by (simp add: all)
  qed
  have updated: "map_option last_status
        (findNotificationById (notification_oid d) (notification_coll db')) = Some (seatStatus cs)"
    if d: "d \<in> set ?coll" and a: "is_active d" "tracked db d"
      "lookup (pn_envs env (notification_oid d)) = Some cs"
      "status_write (pn_envs env (notification_oid d))" for d cs
  proof -
    have here: "findNotificationById (notification_oid d) ?coll = Some d"
      using D d by (rule find_distinct)
    have v: "pop_user (populate db d) \<noteq> None" "pop_class (populate db d) \<noteq> None"
      using a(2) by (simp_all add: populate_simps tracked_def)
    from processNotification_record [OF v a(3,4), of db d] here
    have "map_option last_status
        (findNotificationById (notification_oid d) (notification_coll (fst (alone env db d)))) =
        Some (seatStatus cs)"
      by (auto simp: alone_def populate_simps)
    with final [OF d] a(1) show ?thesis by simp
  qed
  have twelve: "?N = 12 \<longrightarrow> map (\<lambda>r. length (found r)) ?reports = [5, 5, 2]"
  proof
    assume n: "?N = 12"
    have "map (\<lambda>r. length (found r)) ?reports = map (\<lambda>b. length (?B b)) [0 ..< 3]"
      by (simp add: n totalBatches_div comp_def)
    also have "\<dots> = [5, 5, 2]" using n by (simp add: upt_rec batchSize_def)
    finally show "map (\<lambda>r. length (found r)) ?reports = [5, 5, 2]" .
  qed
  from each cc final updated twelve len ceil show ?thesis
    unfolding split_def mc fst_conv snd_conv by (intro conjI ballI allI impI) auto
qed

lemma alone_record:
  assumes "distinct (map notification_oid (notification_coll db))" "d \<in> set (notification_coll db)"
  shows "findNotificationById (notification_oid d) (notification_coll (fst (alone env db d))) =
           Some (written (pn_envs env (notification_oid d)) (populate db d) d)"
  using find_distinct [OF assms]
  by (simp add: alone_def processNotification_written populate_simps find_after_update written_oid)

lemma example_db12_docs:
  "notification_coll example_db12 =
     [example_doc 0, example_doc 1, example_doc 2, example_doc 3, example_doc 4, example_doc 5,
      example_doc 6, example_doc 7, example_doc 8, example_doc 9, example_doc 10, example_doc 11]"
proof -
  have "[0 ..< 12] = [0, 1, 2, 3, 4, 5, 6, 7, 8, 9, 10, 11 :: nat]" by code_simp
  then show ?thesis by (simp add: example_db12_def)
qed

lemma example_doc_fields:
  "notification_oid (example_doc k) = 100 + k" "is_active (example_doc k)"
  "class_number (example_doc k) = ''12345''" "last_status (example_doc k) = ''Closed''"
  "user_id (example_doc k) = 1" "class_id (example_doc k) = k"
  "last_checked (example_doc k) = 0"
  by (simp_all add: example_doc_def example_record_def)

lemma example_db12_active:
  "filter is_active (notification_coll example_db12) = notification_coll example_db12"
  "distinct (map notification_oid (notification_coll example_db12))"
  by (simp_all add: example_db12_docs example_doc_fields)

lemma example_db12_tracked:
  "tracked example_db12 (example_doc 0)" "tracked example_db12 (example_doc 1)"
  "tracked example_db12 (example_doc 2)" "tracked example_db12 (example_doc 3)"
  "tracked example_db12 (example_doc 4)" "tracked example_db12 (example_doc 10)"
  "tracked example_db12 (example_doc 11)"
  by (simp_all add: tracked_def example_db12_def example_doc_fields findUserById_def
      findClassById_def upt_rec)

lemma example_alone:
  "k \<noteq> 3 \<Longrightarrow> tracked example_db12 (example_doc k) \<Longrightarrow>
     snd (alone example_cycle example_db12 (example_doc k)) = ([], Inr (Some still_closed))"
  "tracked example_db12 (example_doc 3) \<Longrightarrow>
     snd (alone example_cycle example_db12 (example_doc 3)) = ([], Inr None)"
  by (simp_all add: alone_def processNotification_def processNotification_try_def Let_def
      example_cycle_def example_env_def populate_simps tracked_def example_doc_fields
      still_closed_def split_def)

lemma example_written:
  "k \<noteq> 3 \<Longrightarrow> tracked example_db12 (example_doc k) \<Longrightarrow>
     last_checked (written (pn_envs example_cycle (100 + k)) (populate example_db12 (example_doc k))
       (example_doc k)) = 7"
  "last_checked (written (pn_envs example_cycle 103) (populate example_db12 (example_doc 3))
       (example_doc 3)) = 0"
  by (simp_all add: written_def example_cycle_def example_env_def populate_simps tracked_def
      example_doc_fields)

theorem batches_of_a_cycle_witness:
  "isRunning started \<and> count_ok example_cycle \<and> find_ok example_cycle 0 \<and>
   still_running example_cycle 0 \<and>
   distinct (map notification_oid (notification_coll example_db12)) \<and>
   length (filter is_active (notification_coll example_db12)) = 12 \<and>
   (case monitorClasses example_cycle started example_db12 of
      (s', db', reports) \<Rightarrow>
        map (\<lambda>r. length (found r)) reports = [5, 5, 2] \<and>
        found (reports ! 2) = [110, 111] \<and>
        events (reports ! 2) =
          [Requested ''12345'', Requested ''12345'',
           Settled 110 [] (Inr (Some still_closed)), Settled 111 [] (Inr (Some still_closed)),
           Slept 1000] \<and>
        outcomes (events (reports ! 0)) =
          [Inr (Some still_closed), Inr (Some still_closed), Inr (Some still_closed), Inr None,
           Inr (Some still_closed)] \<and>
        map_option last_checked (findNotificationById 103 (notification_coll db')) = Some 0 \<and>
        map_option last_checked (findNotificationById 104 (notification_coll db')) = Some 7 \<and>
        map_option last_status (findNotificationById 104 (notification_coll db')) = Some ''Closed'' \<and>
        concat (map found reports) = [100, 101, 102, 103, 104, 105, 106, 107, 108, 109, 110, 111])"
proof -
  have h: "isRunning started" "count_ok example_cycle" "\<forall>b. find_ok example_cycle b"
    "\<forall>b. still_running example_cycle b"
    by (simp_all add: started_def example_cycle_def)
  note D = example_db12_active(2)
  have N: "length (filter is_active (notification_coll example_db12)) = 12"
    by (simp only: example_db12_active(1)) (simp add: example_db12_docs)
  obtain s' db' reports where m: "monitorClasses example_cycle started example_db12 = (s', db', reports)"
    by (cases "monitorClasses example_cycle started example_db12") auto
  note t = batches_of_a_cycle [OF h D, unfolded m split_conv example_db12_active(1)]
  note t2 = t [THEN conjunct2, THEN conjunct1]
  note t3 = t [THEN conjunct2, THEN conjunct2, THEN conjunct1]
  note t4 = t [THEN conjunct2, THEN conjunct2, THEN conjunct2, THEN conjunct1]
  note t5 = t [THEN conjunct2, THEN conjunct2, THEN conjunct2, THEN conjunct2, THEN conjunct1]
  note t6 = t [THEN conjunct2, THEN conjunct2, THEN conjunct2, THEN conjunct2, THEN conjunct2]
  from t6 N have sizes: "map (\<lambda>r. length (found r)) reports = [5, 5, 2]"
    by (simp add: example_db12_active(1))
  have "length (map (\<lambda>r. length (found r)) reports) = length reports" by simp
  with sizes have l: "length reports = 3" by simp
  note each = t2
  have a10: "snd (alone example_cycle example_db12 (example_doc k)) = ([], Inr (Some still_closed))"
    if "k \<in> {0, 1, 2, 4, 10, 11}" for k
    using that example_db12_tracked by (auto intro!: example_alone(1))
  have a3: "snd (alone example_cycle example_db12 (example_doc 3)) = ([], Inr None)"
    using example_db12_tracked by (intro example_alone(2))
  have b2: "found (reports ! 2) = [110, 111] \<and>
      events (reports ! 2) =
          [Requested ''12345'', Requested ''12345'',
           Settled 110 [] (Inr (Some still_closed)), Settled 111 [] (Inr (Some still_closed)),
           Slept 1000]"
    using each [rule_format, of 2] l
    by (simp add: example_db12_docs example_db12_tracked example_doc_fields a10)
  have b0: "outcomes (events (reports ! 0)) =
          [Inr (Some still_closed), Inr (Some still_closed), Inr (Some still_closed), Inr None,
           Inr (Some still_closed)]"
    using each [rule_format, of 0] l
    by (simp add: example_db12_docs example_db12_tracked example_doc_fields a10 a3)
  note fin = t4
  have mem: "example_doc 3 \<in> set (notification_coll example_db12)"
    "example_doc 4 \<in> set (notification_coll example_db12)"
    by (simp_all add: example_db12_docs)
  have f3: "map_option last_checked (findNotificationById 103 (notification_coll db')) = Some 0"
    using fin [rule_format, OF mem(1)] alone_record [OF D mem(1), of example_cycle]
      example_written(2)
    by (simp add: example_doc_fields)
  have f4: "map_option last_checked (findNotificationById 104 (notification_coll db')) = Some 7"
    using fin [rule_format, OF mem(2)] alone_record [OF D mem(2), of example_cycle]
      example_written(1) [of 4] example_db12_tracked
    by (simp add: example_doc_fields)
  note upd = t5
  have s4: "map_option last_status (findNotificationById 104 (notification_coll db')) = Some ''Closed''"
    using upd [rule_format, OF mem(2), of "\<lparr>error_field = None, seatStatus = ''Closed''\<rparr>"]
      example_db12_tracked
    by (simp add: example_doc_fields example_cycle_def example_env_def)
  from t3 have cc: "concat (map found reports) =
      [100, 101, 102, 103, 104, 105, 106, 107, 108, 109, 110, 111]"
    by (simp add: example_db12_docs example_doc_fields)
  from h D N sizes b2 b0 f3 f4 s4 cc show ?thesis
    by (simp add: m)
qed

end
